theory Spec2Isabelle
  imports Complex_Main
begin

section \<open>Python values used by the Simon post-processing code\<close>

text \<open>
  The Python exceptions that the modelled functions can raise are values of
  \<open>error\<close>; a function that can raise returns \<open>error + 'a\<close>.
\<close>

datatype error = ValueError | IndexError

text \<open>\<open>int(c)\<close> for a one-character string holding a decimal digit; any other character
  is a \<open>ValueError\<close>.\<close>

definition py_int :: "char \<Rightarrow> error + int" where
  "py_int c =
     (if c = CHR ''0'' then Inr 0 else if c = CHR ''1'' then Inr 1
      else if c = CHR ''2'' then Inr 2 else if c = CHR ''3'' then Inr 3
      else if c = CHR ''4'' then Inr 4 else if c = CHR ''5'' then Inr 5
      else if c = CHR ''6'' then Inr 6 else if c = CHR ''7'' then Inr 7
      else if c = CHR ''8'' then Inr 8 else if c = CHR ''9'' then Inr 9
      else Inl ValueError)"

definition digit_char :: "nat \<Rightarrow> char" where
  "digit_char d = ''0123456789'' ! d"

text \<open>\<open>str(i)\<close> for an integer: its decimal digits, with a minus sign when negative.\<close>

fun str_nat :: "nat \<Rightarrow> string" where
  "str_nat n = (if n < 10 then [digit_char n] else str_nat (n div 10) @ [digit_char (n mod 10)])"

definition str_int :: "int \<Rightarrow> string" where
  "str_int i = (if i < 0 then CHR ''-'' # str_nat (nat (- i)) else str_nat (nat i))"

section \<open>Cycle decomposition of the ternary strings (\<open>find_ternary_cycles\<close>)\<close>

text \<open>
  \<open>generate_ternary_numbers(qudits_num)\<close>: all strings of that length over \<open>012\<close>, in
  counting order. The Python recursion on a negative argument never ends, so the
  argument is a \<open>nat\<close>.
\<close>

fun generate_ternary_numbers :: "nat \<Rightarrow> string list" where
  "generate_ternary_numbers 0 = [[]]"
| "generate_ternary_numbers (Suc q) =
     concat (map (\<lambda>x. map (\<lambda>y. x @ [y]) ''012'') (generate_ternary_numbers q))"

text \<open>
  \<open>add_ternary(t1, t2)\<close> walks the positions of \<open>t1\<close>; position \<open>i\<close> reads
  \<open>int(t1[i])\<close>, then \<open>t2[i]\<close> (an \<open>IndexError\<close> when \<open>t2\<close> is shorter), then
  \<open>int(t2[i])\<close>.
\<close>

fun add_ternary :: "string \<Rightarrow> string \<Rightarrow> error + string" where
  "add_ternary [] t2 = Inr []"
| "add_ternary (a # t1) t2 =
     (case py_int a of
        Inl e \<Rightarrow> Inl e
      | Inr x \<Rightarrow>
          (case t2 of
             [] \<Rightarrow> Inl IndexError
           | b # t2' \<Rightarrow>
               (case py_int b of
                  Inl e \<Rightarrow> Inl e
                | Inr y \<Rightarrow>
                    (case add_ternary t1 t2' of
                       Inl e \<Rightarrow> Inl e
                     | Inr r \<Rightarrow> Inr (str_int ((x + y) mod 3) @ r)))))"

text \<open>The set of all strings of length \<open>l\<close> over the digits \<open>0\<close>, \<open>1\<close>, \<open>2\<close>.\<close>

definition ternary_strings :: "nat \<Rightarrow> string set" where
  "ternary_strings l = {t. length t = l \<and> set t \<subseteq> {CHR ''0'', CHR ''1'', CHR ''2''}}"

text \<open>
  The \<open>while current not in seen_cycles\<close> loop of \<open>find_cycle\<close>, with its three
  variables as arguments. It stops because every string after the start is a ternary
  string of the start's length, and there are finitely many of those.
\<close>

function find_cycle_loop ::
  "string \<Rightarrow> string \<Rightarrow> string list \<Rightarrow> string set \<Rightarrow> error + string list" where
  "find_cycle_loop secret_string current ternary_cycle seen_cycles =
     (if current \<in> seen_cycles then Inr ternary_cycle
      else
        (case add_ternary current secret_string of
           Inl e \<Rightarrow> Inl e
         | Inr nxt \<Rightarrow>
             find_cycle_loop secret_string nxt (ternary_cycle @ [current])
               (insert current seen_cycles)))"
  by pat_completeness auto

lemma py_int_ternary:
  "c \<in> {CHR ''0'', CHR ''1'', CHR ''2''} \<Longrightarrow> \<exists>x. py_int c = Inr x \<and> 0 \<le> x \<and> x < 3"
  by (auto simp: py_int_def)

lemma str_int_mod3:
  "str_int (x mod 3) = [digit_char (nat (x mod 3))] \<and>
   digit_char (nat (x mod 3)) \<in> {CHR ''0'', CHR ''1'', CHR ''2''}"
proof -
  have "0 \<le> x mod 3" "x mod 3 < 3" by simp_all
  then have "x mod 3 = 0 \<or> x mod 3 = 1 \<or> x mod 3 = 2" by arith
  then show ?thesis
    by (elim disjE) (simp_all add: str_int_def digit_char_def)
qed

lemma add_ternary_shape:
  "add_ternary t1 t2 = Inr r \<Longrightarrow> r \<in> ternary_strings (length t1)"
proof (induction t1 arbitrary: t2 r)
  case Nil
  then show ?case by (simp add: ternary_strings_def)
next
  case (Cons a t1)
  from Cons.prems obtain x b t2' y r' where
    parts: "py_int a = Inr x" "t2 = b # t2'" "py_int b = Inr y"
      "add_ternary t1 t2' = Inr r'" "r = str_int ((x + y) mod 3) @ r'"
    by (auto split: sum.splits list.splits)
  from Cons.IH[OF parts(4)] have "r' \<in> ternary_strings (length t1)" .
  with parts(5) str_int_mod3[of "x + y"] show ?case
    by (auto simp: ternary_strings_def)
qed

lemma finite_ternary_strings: "finite (ternary_strings l)"
proof -
  have "ternary_strings l \<subseteq> {t. set t \<subseteq> {CHR ''0'', CHR ''1'', CHR ''2''} \<and> length t = l}"
    by (auto simp: ternary_strings_def)
  then show ?thesis
    using finite_lists_length_eq[of "{CHR ''0'', CHR ''1'', CHR ''2''}" l]
    by (auto intro: finite_subset)
qed

termination find_cycle_loop
proof (relation "measure (\<lambda>(secret_string, current, ternary_cycle, seen_cycles).
          card (ternary_strings (length current) - seen_cycles)
          + (if current \<in> ternary_strings (length current) then 0 else 1))")
  show "wf (measure (\<lambda>(secret_string, current, ternary_cycle, seen_cycles).
          card (ternary_strings (length current) - seen_cycles)
          + (if current \<in> ternary_strings (length current) then 0 else 1)))"
    by simp
next
  fix secret_string current :: string and ternary_cycle :: "string list"
    and seen_cycles :: "string set" and nxt :: string
  assume unseen: "current \<notin> seen_cycles"
    and step: "add_ternary current secret_string = Inr nxt"
  let ?U = "ternary_strings (length current)"
  from add_ternary_shape[OF step] have nxt: "nxt \<in> ?U" .
  then have len: "length nxt = length current" by (simp add: ternary_strings_def)
  have fin: "finite (?U - seen_cycles)" using finite_ternary_strings by simp
  show "((secret_string, nxt, ternary_cycle @ [current], insert current seen_cycles),
         (secret_string, current, ternary_cycle, seen_cycles))
        \<in> measure (\<lambda>(secret_string, current, ternary_cycle, seen_cycles).
            card (ternary_strings (length current) - seen_cycles)
            + (if current \<in> ternary_strings (length current) then 0 else 1))"
  proof (cases "current \<in> ?U")
    case True
    then have "current \<in> ?U - seen_cycles" using unseen by simp
    then have "card (?U - insert current seen_cycles) < card (?U - seen_cycles)"
      using fin by (metis Diff_insert card_Diff1_less)
    then show ?thesis using nxt len True by simp
  next
    case False
    then have "?U - insert current seen_cycles = ?U - seen_cycles" by auto
    then show ?thesis using nxt len False by simp
  qed
qed

declare find_cycle_loop.simps [simp del]

text \<open>\<open>find_cycle(start, secret_string)\<close>: the loop from an empty cycle and an empty set.\<close>

definition find_cycle :: "string \<Rightarrow> string \<Rightarrow> error + string list" where
  "find_cycle start secret_string = find_cycle_loop secret_string start [] {}"

text \<open>
  The \<open>for number in ternary_numbers\<close> loop of \<open>find_ternary_cycles\<close>, with \<open>cycles\<close>
  and \<open>seen\<close> as arguments.
\<close>

fun cycles_loop ::
  "string \<Rightarrow> string list \<Rightarrow> string list list \<Rightarrow> string set \<Rightarrow> error + string list list" where
  "cycles_loop secret_string [] cycles seen = Inr cycles"
| "cycles_loop secret_string (number # rest) cycles seen =
     (if number \<notin> seen then
        (case find_cycle number secret_string of
           Inl e \<Rightarrow> Inl e
         | Inr cycle \<Rightarrow> cycles_loop secret_string rest (cycles @ [cycle]) (seen \<union> set cycle))
      else cycles_loop secret_string rest cycles seen)"

definition find_ternary_cycles :: "nat \<Rightarrow> string \<Rightarrow> error + string list list" where
  "find_ternary_cycles n secret_string =
     cycles_loop secret_string (generate_ternary_numbers n) [] {}"

section \<open>Matrices\<close>

text \<open>
  A matrix is the list of its rows, every row of the same length; entries are
  integers. \<open>Matrix(list_of_lists)\<close> of the matrix library leaves out the empty rows
  of the list and refuses the remaining rows with a \<open>ValueError\<close> when their lengths
  differ (\<open>Matrix([[2], []])\<close> is the matrix with the one row \<open>[2]\<close>).
\<close>

type_synonym matrix = "int list list"

definition ncols :: "'a list list \<Rightarrow> nat" where
  "ncols M = (case M of [] \<Rightarrow> 0 | row # _ \<Rightarrow> length row)"

definition is_matrix :: "'a list list \<Rightarrow> bool" where
  "is_matrix M = list_all (\<lambda>row. length row = ncols M) M"

definition Matrix :: "int list list \<Rightarrow> error + matrix" where
  "Matrix rows =
     (let kept = filter (\<lambda>row. row \<noteq> []) rows
      in if is_matrix kept then Inr kept else Inl ValueError)"

text \<open>\<open>.T\<close> of the matrix whose rows are the \<open>k\<close> collected vectors of length \<open>n\<close>:
  \<open>n\<close> rows of length \<open>k\<close>.\<close>

definition T :: "matrix \<Rightarrow> matrix" where
  "T A = map (\<lambda>i. map (\<lambda>row. row ! i) A) [0..<ncols A]"

text \<open>\<open>np.eye(n, dtype=int)\<close> and \<open>np.hstack([M, np.eye(M.shape[0], dtype=int)])\<close>:
  row \<open>i\<close> of \<open>M\<close> followed by the \<open>i\<close>-th unit row.\<close>

definition eye :: "nat \<Rightarrow> matrix" where
  "eye n = map (\<lambda>i. map (\<lambda>j. if j = i then 1 else 0) [0..<n]) [0..<n]"

definition hstack :: "matrix \<Rightarrow> matrix \<Rightarrow> matrix" where
  "hstack A B = map2 (@) A B"

definition row_swap :: "nat \<Rightarrow> nat \<Rightarrow> 'a list \<Rightarrow> 'a list" where
  "row_swap i j M = M[i := M ! j, j := M ! i]"

section \<open>Row reduction mod 3 (\<open>rref_mod3\<close>)\<close>

definition mod3 :: "int \<Rightarrow> int" where
  "mod3 x = x mod 3"

text \<open>\<open>pow(pivot_val, -1, 3)\<close>: the inverse mod 3, a \<open>ValueError\<close> for a multiple of 3.\<close>

definition pow_inv3 :: "int \<Rightarrow> error + int" where
  "pow_inv3 x =
     (if x mod 3 = 0 then Inl ValueError else if x mod 3 = 1 then Inr 1 else Inr 2)"

text \<open>The pivot search \<open>for ri in range(r, rows): if M[ri, c] != 0: ...; break\<close>.\<close>

fun find_pivot_row :: "matrix \<Rightarrow> nat \<Rightarrow> nat list \<Rightarrow> nat option" where
  "find_pivot_row M c [] = None"
| "find_pivot_row M c (ri # ris) =
     (if M ! ri ! c \<noteq> 0 then Some ri else find_pivot_row M c ris)"

text \<open>The normalisation of the pivot row, skipped when the pivot is already 1.\<close>

definition normalize_pivot_row :: "matrix \<Rightarrow> nat \<Rightarrow> nat \<Rightarrow> error + matrix" where
  "normalize_pivot_row M r c =
     (let pivot_val = M ! r ! c in
      if pivot_val \<noteq> 1 then
        (case pow_inv3 pivot_val of
           Inl e \<Rightarrow> Inl e
         | Inr pw \<Rightarrow>
             (let inv_pivot_val = mod3 pw
              in Inr (M[r := map (\<lambda>x. mod3 (inv_pivot_val * x)) (M ! r)])))
      else Inr M)"

text \<open>
  The elimination loop: every row \<open>ri \<noteq> r\<close> with a non-zero entry in column \<open>c\<close>
  becomes \<open>mod3(M[ri, j] - multiplier * M[r, j])\<close> in every column \<open>j\<close>, the multiplier
  read before the row is overwritten. Row \<open>r\<close> does not change during the loop.
\<close>

definition eliminate_mod3 :: "matrix \<Rightarrow> nat \<Rightarrow> nat \<Rightarrow> matrix" where
  "eliminate_mod3 M r c =
     map (\<lambda>ri.
            if ri \<noteq> r \<and> M ! ri ! c \<noteq> 0 then
              (let multiplier = M ! ri ! c
               in map2 (\<lambda>x y. mod3 (x - multiplier * y)) (M ! ri) (M ! r))
            else M ! ri)
         [0..<length M]"

text \<open>
  The \<open>for c in range(cols)\<close> loop, with the matrix, the row index \<open>r\<close> and
  \<open>pivot_cols\<close> as arguments; \<open>if r == rows: break\<close> ends it early.
\<close>

fun rref_mod3_loop ::
  "nat \<Rightarrow> nat list \<Rightarrow> matrix \<Rightarrow> nat \<Rightarrow> nat list \<Rightarrow> error + (matrix \<times> nat list)" where
  "rref_mod3_loop rows [] M r pivot_cols = Inr (M, pivot_cols)"
| "rref_mod3_loop rows (c # cs) M r pivot_cols =
     (case find_pivot_row M c [r..<rows] of
        None \<Rightarrow> rref_mod3_loop rows cs M r pivot_cols
      | Some pivot_row \<Rightarrow>
          (case normalize_pivot_row (if pivot_row \<noteq> r then row_swap pivot_row r M else M) r c of
             Inl e \<Rightarrow> Inl e
           | Inr M' \<Rightarrow>
               (if r + 1 = rows then Inr (eliminate_mod3 M' r c, pivot_cols @ [c])
                else rref_mod3_loop rows cs (eliminate_mod3 M' r c) (r + 1) (pivot_cols @ [c]))))"

definition rref_mod3 :: "matrix \<Rightarrow> error + (matrix \<times> nat list)" where
  "rref_mod3 M = rref_mod3_loop (length M) [0..<ncols M] (map (map mod3) M) 0 []"

section \<open>Ternary secret extraction (\<open>recover_secret_string_3d\<close>)\<close>

text \<open>
  \<open>int(chunk, 2)\<close> for a chunk of one or two characters of a measured bit string.
  Measurement outcomes are strings over \<open>0\<close> and \<open>1\<close>, and on these the model is
  Python's \<open>int\<close>. A chunk with any other character is a \<open>ValueError\<close> in the model;
  Python also reads a sign or white space around the digits (\<open>int('+1', 2)\<close> is 1),
  which no measurement outcome contains.
\<close>

fun int_base2 :: "string \<Rightarrow> error + int" where
  "int_base2 [] = Inl ValueError"
| "int_base2 (c # cs) =
     (if c = CHR ''0'' \<or> c = CHR ''1'' then
        (if cs = [] then Inr (if c = CHR ''1'' then 1 else 0)
         else (case int_base2 cs of
                 Inl e \<Rightarrow> Inl e
               | Inr v \<Rightarrow> Inr ((if c = CHR ''1'' then 2 ^ length cs else 0) + v)))
      else Inl ValueError)"

fun binary_to_ternary :: "string \<Rightarrow> error + string" where
  "binary_to_ternary [] = Inr []"
| "binary_to_ternary [a] =
     (case int_base2 [a] of Inl e \<Rightarrow> Inl e | Inr v \<Rightarrow> Inr (str_int v))"
| "binary_to_ternary (a # b # rest) =
     (case int_base2 [a, b] of
        Inl e \<Rightarrow> Inl e
      | Inr v \<Rightarrow>
          (case binary_to_ternary rest of
             Inl e \<Rightarrow> Inl e
           | Inr r \<Rightarrow> Inr (str_int v @ r)))"

text \<open>\<open>[int(digit) for digit in text]\<close>, stopping at the first character that is not a
  digit.\<close>

fun int_digits :: "string \<Rightarrow> error + int list" where
  "int_digits [] = Inr []"
| "int_digits (c # cs) =
     (case py_int c of
        Inl e \<Rightarrow> Inl e
      | Inr x \<Rightarrow> (case int_digits cs of Inl e \<Rightarrow> Inl e | Inr xs \<Rightarrow> Inr (x # xs)))"

text \<open>
  The loop that fills \<open>equations\<close> from the keys of \<open>results\<close>, dropping the all-zero
  outcome of \<open>2 * n\<close> bits. The dictionary is the list of its items in iteration order.
\<close>

fun equations_3d :: "nat \<Rightarrow> (string \<times> int) list \<Rightarrow> error + int list list" where
  "equations_3d n [] = Inr []"
| "equations_3d n ((result, count) # items) =
     (if result \<noteq> replicate (2 * n) (CHR ''0'') then
        (case binary_to_ternary result of
           Inl e \<Rightarrow> Inl e
         | Inr ternary_result \<Rightarrow>
             (case int_digits ternary_result of
                Inl e \<Rightarrow> Inl e
              | Inr y \<Rightarrow>
                  (case equations_3d n items of
                     Inl e \<Rightarrow> Inl e
                   | Inr rest \<Rightarrow> Inr (y # rest))))
      else equations_3d n items)"

text \<open>
  The loop over the rows of \<open>M_I_final\<close> (lines 125 to 138), with \<open>null_space_found\<close>
  and \<open>first_solution\<close> as arguments; \<open>k\<close> is \<open>M.cols\<close>.
\<close>

fun solution_scan :: "nat \<Rightarrow> matrix \<Rightarrow> bool \<Rightarrow> string \<Rightarrow> string" where
  "solution_scan k [] null_space_found first_solution = first_solution"
| "solution_scan k (row # rows) null_space_found first_solution =
     (if list_all (\<lambda>val. mod3 val = 0) (take k row) then
        (let solution_vector = drop k row;
             result_s = concat (map str_int solution_vector)
         in if \<not> null_space_found then solution_scan k rows True result_s
            else solution_scan k rows null_space_found first_solution)
      else solution_scan k rows null_space_found first_solution)"

definition first_solution_3d :: "nat \<Rightarrow> nat \<Rightarrow> matrix \<Rightarrow> string" where
  "first_solution_3d n k M_I_final = solution_scan k M_I_final False (replicate n (CHR ''0''))"

text \<open>
  The function returns the pair \<open>('0' * n, 0)\<close> when no equation was collected and a
  plain string otherwise, so its result is one of two shapes.
\<close>

datatype py_result = PyStr string | PyTuple string int

definition recover_secret_string_3d :: "nat \<Rightarrow> (string \<times> int) list \<Rightarrow> error + py_result" where
  "recover_secret_string_3d n results =
     (case equations_3d n results of
        Inl e \<Rightarrow> Inl e
      | Inr equations \<Rightarrow>
          if equations = [] then Inr (PyTuple (replicate n (CHR ''0'')) 0)
          else
            (case Matrix equations of
               Inl e \<Rightarrow> Inl e
             | Inr E \<Rightarrow>
                 (let M = T (map (map mod3) E);
                      M_I = hstack M (eye (length M))
                  in case rref_mod3 M_I of
                       Inl e \<Rightarrow> Inl e
                     | Inr M_I_rref \<Rightarrow>
                         (let M_I_final = map (map (\<lambda>x. x mod 3)) (fst M_I_rref)
                          in Inr (PyStr (first_solution_3d n (length E) M_I_final))))))"

section \<open>Row reduction with a zero test (\<open>Matrix.rref(iszerofunc=...)\<close>)\<close>

text \<open>
  \<open>solve_equation\<close> and \<open>post_processing\<close> call the matrix library's \<open>rref\<close> with
  \<open>iszerofunc=lambda x: x % 2 == 0\<close>. The library is not part of the repository, and
  the repository names no version of it. The row reduction of the library for a
  matrix of integers, with a zero test deciding what may be a pivot, is
  \<^item> columns are visited from left to right while a row without pivot is left;
  \<^item> the pivot of a column is the first entry, from the current pivot row down, that
    the zero test rejects; a column without such an entry is skipped;
  \<^item> the pivot's row is swapped into the pivot position, and every other row whose
    entry \<open>val\<close> in the column is not zero for the test becomes
    \<open>pivot_val * row - val * pivot_row\<close> (no division during the elimination);
  \<^item> at the end every pivot row is normalised: the pivot becomes 1 and the entries to
    its right are divided by the pivot's value, which makes them rational numbers.

  After a pivot the library's loop looks at the same column once more, from the next
  row down, and finds no pivot there, the entries below being cancelled or zero for the
  test; \<open>row_reduce\<close> moves to the next column at once. During the elimination the
  entries stay integers, so the matrix is an integer matrix until the normalisation.

  What the library does with the \<open>iszerofunc\<close> it is given depends on its version:
  \<^item> up to release 1.12, \<open>rref\<close> runs this reduction with the caller's zero test, so
    with \<open>x % 2 == 0\<close> an even entry is never a pivot and is never cancelled
    (\<open>Honours_zero_test\<close>);
  \<^item> from release 1.13 on, \<open>rref\<close> of a matrix of integers does not look at
    \<open>iszerofunc\<close> and returns the reduced row echelon form over the rationals with its
    pivot columns (\<open>Ignores_zero_test\<close>). That form is unique, and it is what the
    reduction above computes with the exact zero test \<open>x = 0\<close>: the elimination leaves
    exact zeros in every pivot column and to the left of every pivot, and the
    normalisation makes every pivot 1.

  The functions of the repository that call \<open>rref\<close> are modelled with the library as
  it is released now (\<open>Ignores_zero_test\<close>); \<open>solve_equation_with\<close> has the library as
  an argument, for the comparison of the two.
\<close>

datatype library = Honours_zero_test | Ignores_zero_test

fun find_pivot_offset :: "(int \<Rightarrow> bool) \<Rightarrow> int list \<Rightarrow> nat option" where
  "find_pivot_offset iszerofunc [] = None"
| "find_pivot_offset iszerofunc (x # col) =
     (if \<not> iszerofunc x then Some 0
      else map_option Suc (find_pivot_offset iszerofunc col))"

definition get_col :: "matrix \<Rightarrow> nat \<Rightarrow> int list" where
  "get_col mat j = map (\<lambda>row. row ! j) mat"

definition cross_cancel_rows :: "(int \<Rightarrow> bool) \<Rightarrow> matrix \<Rightarrow> nat \<Rightarrow> nat \<Rightarrow> matrix" where
  "cross_cancel_rows iszerofunc mat piv_row piv_col =
     (let pivot_val = mat ! piv_row ! piv_col in
      map (\<lambda>row.
             if row = piv_row then mat ! row
             else
               (let val = mat ! row ! piv_col in
                if iszerofunc val then mat ! row
                else map2 (\<lambda>a b. pivot_val * a - val * b) (mat ! row) (mat ! piv_row)))
          [0..<length mat])"

function row_reduce ::
  "(int \<Rightarrow> bool) \<Rightarrow> nat \<Rightarrow> nat \<Rightarrow> matrix \<Rightarrow> nat \<Rightarrow> nat \<Rightarrow> nat list \<Rightarrow> matrix \<times> nat list" where
  "row_reduce iszerofunc rows cols mat piv_row piv_col pivot_cols =
     (if piv_col < cols \<and> piv_row < rows then
        (case find_pivot_offset iszerofunc (drop piv_row (get_col mat piv_col)) of
           None \<Rightarrow> row_reduce iszerofunc rows cols mat piv_row (piv_col + 1) pivot_cols
         | Some pivot_offset \<Rightarrow>
             row_reduce iszerofunc rows cols
               (cross_cancel_rows iszerofunc
                  (if pivot_offset \<noteq> 0 then row_swap piv_row (pivot_offset + piv_row) mat else mat)
                  piv_row piv_col)
               (piv_row + 1) (piv_col + 1) (pivot_cols @ [piv_col]))
      else (mat, pivot_cols))"
  by pat_completeness auto
termination
  by (relation "measure (\<lambda>(iszerofunc, rows, cols, mat, piv_row, piv_col, pivot_cols). cols - piv_col)")
    auto

declare row_reduce.simps [simp del]

text \<open>The final normalisation \<open>for piv_i, piv_j in enumerate(pivot_cols)\<close>.\<close>

fun normalize_rows :: "(nat \<times> nat) list \<Rightarrow> rat list list \<Rightarrow> rat list list" where
  "normalize_rows [] mat = mat"
| "normalize_rows ((piv_i, piv_j) # ps) mat =
     (let pivot_val = mat ! piv_i ! piv_j;
          row = mat ! piv_i
      in normalize_rows ps
           (mat[piv_i := take piv_j row @ [1] @ map (\<lambda>x. x / pivot_val) (drop (Suc piv_j) row)]))"

definition zero_test :: "library \<Rightarrow> (int \<Rightarrow> bool) \<Rightarrow> int \<Rightarrow> bool" where
  "zero_test lib iszerofunc =
     (case lib of Honours_zero_test \<Rightarrow> iszerofunc | Ignores_zero_test \<Rightarrow> (\<lambda>x. x = 0))"

definition rref :: "library \<Rightarrow> (int \<Rightarrow> bool) \<Rightarrow> matrix \<Rightarrow> rat list list \<times> nat list" where
  "rref lib iszerofunc M =
     (let (mat, pivot_cols) =
            row_reduce (zero_test lib iszerofunc) (length M) (ncols M) M 0 0 []
      in (normalize_rows (zip [0..<length pivot_cols] pivot_cols) (map (map of_int) mat),
          pivot_cols))"

section \<open>Binary secret extraction (\<open>solve_equation\<close>, \<open>run_and_analyze\<close>)\<close>

text \<open>\<open>mod2(x) = x.as_numer_denom()[0] % 2\<close>: the numerator of the fraction in lowest
  terms, mod 2.\<close>

definition mod2 :: "rat \<Rightarrow> int" where
  "mod2 x = fst (quotient_of x) mod 2"

text \<open>
  Lines 30 to 38 of \<open>solve_equation\<close>: the last row of \<open>M_I_final\<close> decides;
  \<open>k\<close> is \<open>M.shape[1]\<close> and \<open>n\<close> is \<open>M.shape[0]\<close>. Row \<open>-1\<close> of a matrix without
  rows is an \<open>IndexError\<close>.
\<close>

definition last_row_solution :: "nat \<Rightarrow> nat \<Rightarrow> matrix \<Rightarrow> error + string" where
  "last_row_solution n k M_I_final =
     (if M_I_final = [] then Inl IndexError
      else if list_all (\<lambda>value. value = 0) (take k (last M_I_final))
      then Inr (concat (map str_int (drop k (last M_I_final))))
      else Inr (replicate n (CHR ''0'')))"

definition solve_equation_with :: "library \<Rightarrow> int list list \<Rightarrow> error + string" where
  "solve_equation_with lib string_list =
     (case Matrix string_list of
        Inl e \<Rightarrow> Inl e
      | Inr E \<Rightarrow>
          (let M = T E;
               M_I = hstack M (eye (length M));
               M_I_rref = rref lib (\<lambda>x. x mod 2 = 0) M_I;
               M_I_final = map (map mod2) (fst M_I_rref)
           in last_row_solution (length M) (length E) M_I_final))"

definition solve_equation :: "int list list \<Rightarrow> error + string" where
  "solve_equation string_list = solve_equation_with Ignores_zero_test string_list"

text \<open>
  The part of \<open>run_and_analyze\<close> after the simulator has returned \<open>counts\<close>; \<open>n\<close> is
  \<open>circuit.num_qubits // 2\<close>.
\<close>

fun equations_of :: "nat \<Rightarrow> (string \<times> int) list \<Rightarrow> error + int list list" where
  "equations_of n [] = Inr []"
| "equations_of n ((result, count) # items) =
     (if result \<noteq> replicate n (CHR ''0'') then
        (case int_digits result of
           Inl e \<Rightarrow> Inl e
         | Inr y \<Rightarrow>
             (case equations_of n items of
                Inl e \<Rightarrow> Inl e
              | Inr rest \<Rightarrow> Inr (y # rest)))
      else equations_of n items)"

definition run_and_analyze :: "nat \<Rightarrow> (string \<times> int) list \<Rightarrow> error + string" where
  "run_and_analyze n counts =
     (case equations_of n counts of
        Inl e \<Rightarrow> Inl e
      | Inr equations \<Rightarrow>
          if length equations = 0 then Inr (replicate n (CHR ''0''))
          else solve_equation equations)"

section \<open>Two secrets (\<open>multi_simon_post_processing\<close>)\<close>

text \<open>\<open>post_processing\<close> has the body of \<open>solve_equation\<close>, line for line.\<close>

definition post_processing :: "int list list \<Rightarrow> error + string" where
  "post_processing string_list =
     (case Matrix string_list of
        Inl e \<Rightarrow> Inl e
      | Inr E \<Rightarrow>
          (let M = T E;
               M_I = hstack M (eye (length M));
               M_I_rref = rref Ignores_zero_test (\<lambda>x. x mod 2 = 0) M_I;
               M_I_final = map (map mod2) (fst M_I_rref)
           in last_row_solution (length M) (length E) M_I_final))"

definition recover_secret_string :: "nat \<Rightarrow> (string \<times> int) list \<Rightarrow> error + string" where
  "recover_secret_string n results =
     (case equations_of n results of
        Inl e \<Rightarrow> Inl e
      | Inr equations \<Rightarrow>
          if length equations = 0 then Inr (replicate n (CHR ''0''))
          else post_processing equations)"

text \<open>\<open>d[key] = 1\<close> on a dictionary kept as the list of its items in insertion order: a
  key already present keeps its place.\<close>

fun dict_set :: "(string \<times> int) list \<Rightarrow> string \<Rightarrow> int \<Rightarrow> (string \<times> int) list" where
  "dict_set [] key v = [(key, v)]"
| "dict_set ((k', v') # d) key v =
     (if k' = key then (k', v) # d else (k', v') # dict_set d key v)"

text \<open>The loop over \<open>counts.keys()\<close> that fills \<open>dic1\<close> and \<open>dic2\<close>; \<open>item[0]\<close> of an
  empty key is an \<open>IndexError\<close>.\<close>

fun split_counts ::
  "string list \<Rightarrow> (string \<times> int) list \<Rightarrow> (string \<times> int) list \<Rightarrow>
   error + ((string \<times> int) list \<times> (string \<times> int) list)" where
  "split_counts [] dic1 dic2 = Inr (dic1, dic2)"
| "split_counts (item # items) dic1 dic2 =
     (case item of
        [] \<Rightarrow> Inl IndexError
      | c # rest \<Rightarrow>
          if c = CHR ''1'' then split_counts items (dict_set dic1 rest 1) dic2
          else split_counts items dic1 (dict_set dic2 rest 1))"

definition run_and_analyze_multi ::
  "nat \<Rightarrow> (string \<times> int) list \<Rightarrow> error + (string \<times> string)" where
  "run_and_analyze_multi n counts =
     (case split_counts (map fst counts) [] [] of
        Inl e \<Rightarrow> Inl e
      | Inr (dic1, dic2) \<Rightarrow>
          (case recover_secret_string n dic2 of
             Inl e \<Rightarrow> Inl e
           | Inr prediction1 \<Rightarrow>
               (case recover_secret_string n dic1 of
                  Inl e \<Rightarrow> Inl e
                | Inr prediction2 \<Rightarrow> Inr (prediction1, prediction2))))"

section \<open>Notions used to state the properties\<close>

text \<open>
  The samples of one ancilla value: the keys of \<open>counts\<close> whose first character is
  (\<open>True\<close>) or is not (\<open>False\<close>) the character \<open>1\<close>, each without that first
  character, as a dictionary with the value 1.
\<close>

definition ancilla_bucket :: "bool \<Rightarrow> string list \<Rightarrow> (string \<times> int) list" where
  "ancilla_bucket b keys =
     foldl (\<lambda>d key. dict_set d key 1) []
       (map tl (filter (\<lambda>item. (hd item = CHR ''1'') = b) keys))"

text \<open>The scalar product of two vectors.\<close>

definition dot :: "int list \<Rightarrow> int list \<Rightarrow> int" where
  "dot v w = sum_list (map2 (*) v w)"

text \<open>Every vector of \<open>vs\<close> is orthogonal to \<open>s\<close> mod \<open>p\<close>.\<close>

definition orthogonal_to :: "int \<Rightarrow> int list \<Rightarrow> int list list \<Rightarrow> bool" where
  "orthogonal_to p s vs = list_all (\<lambda>v. dot v s mod p = 0) vs"

text \<open>Position \<open>t\<close> of the linear combination of the vectors \<open>vs\<close> with the coefficients
  \<open>c\<close>.\<close>

definition lin_comb :: "int list \<Rightarrow> int list list \<Rightarrow> nat \<Rightarrow> int" where
  "lin_comb c vs t = sum_list (map2 (\<lambda>cj v. cj * v ! t) c vs)"

text \<open>
  The vectors \<open>vs\<close>, of length \<open>n\<close>, are linearly independent mod \<open>p\<close>: among the
  coefficient lists over \<open>0, ..., p - 1\<close> only the all-zero one gives a combination that
  is zero mod \<open>p\<close> in every position.
\<close>

definition linearly_independent :: "int \<Rightarrow> nat \<Rightarrow> int list list \<Rightarrow> bool" where
  "linearly_independent p n vs =
     list_all
       (\<lambda>c. list_all (\<lambda>t. lin_comb c vs t mod p = 0) [0..<n] \<longrightarrow> list_all (\<lambda>x. x = 0) c)
       (List.n_lists (length vs) (map int [0..<nat p]))"

text \<open>A secret: \<open>n\<close> digits below \<open>p\<close>, not all of them zero.\<close>

definition is_secret :: "int \<Rightarrow> nat \<Rightarrow> int list \<Rightarrow> bool" where
  "is_secret p n s \<longleftrightarrow>
     length s = n \<and> list_all (\<lambda>x. 0 \<le> x \<and> x < p) s \<and> \<not> list_all (\<lambda>x. x = 0) s"

text \<open>The digits of a vector written as a string, as \<open>''.join(str(x) for x in v)\<close> does.\<close>

definition digits_string :: "int list \<Rightarrow> string" where
  "digits_string v = concat (map str_int v)"

text \<open>The first digit of a vector that is not zero (zero when there is none).\<close>

definition first_nonzero :: "int list \<Rightarrow> int" where
  "first_nonzero s = (case filter (\<lambda>x. x \<noteq> 0) s of [] \<Rightarrow> 0 | x # _ \<Rightarrow> x)"

section \<open>Notions used in the proofs\<close>

text \<open>Digit-wise addition mod 3 on the characters \<open>0\<close>, \<open>1\<close>, \<open>2\<close>, used to describe
  what \<open>add_ternary\<close> computes on ternary strings.\<close>

definition tadd :: "char \<Rightarrow> char \<Rightarrow> char" where
  "tadd a b =
     (case (py_int a, py_int b) of
        (Inr x, Inr y) \<Rightarrow> digit_char (nat ((x + y) mod 3))
      | _ \<Rightarrow> a)"

definition shift_by :: "string \<Rightarrow> string \<Rightarrow> string" where
  "shift_by s t = map2 tadd t s"

definition eqm :: "int \<Rightarrow> int \<Rightarrow> int \<Rightarrow> bool" where
  "eqm p a b \<longleftrightarrow> a mod p = b mod p"

text \<open>The rows of a matrix as functions; \<open>x\<close> is in the kernel mod \<open>p\<close> when every one of
  the first \<open>n\<close> rows, over the first \<open>N\<close> columns, sends it to a multiple of \<open>p\<close>.\<close>

definition in_kernel :: "int \<Rightarrow> nat \<Rightarrow> nat \<Rightarrow> (nat \<Rightarrow> nat \<Rightarrow> int) \<Rightarrow> (nat \<Rightarrow> int) \<Rightarrow> bool" where
  "in_kernel p n N A x \<longleftrightarrow> (\<forall>i<n. eqm p (\<Sum>j<N. A i j * x j) 0)"

definition pivot_rel ::
  "int \<Rightarrow> nat \<Rightarrow> nat \<Rightarrow> nat \<Rightarrow> nat \<Rightarrow> (nat \<Rightarrow> nat \<Rightarrow> int) \<Rightarrow> (nat \<Rightarrow> nat \<Rightarrow> int) \<Rightarrow> bool" where
  "pivot_rel p n N r c A A' \<longleftrightarrow>
     (\<exists>pr u u' m. r \<le> pr \<and> pr < n \<and> eqm p (u * u') 1 \<and>
        (\<forall>j<N. eqm p (A' r j) (u * A pr j)) \<and> eqm p (A' r c) 1 \<and>
        (\<forall>i<n. i \<noteq> r \<longrightarrow> eqm p (A' i c) 0 \<and>
           (\<forall>j<N. eqm p (A' i j) (A (if i = pr then r else i) j - m i * A' r j))))"

definition echelon :: "int \<Rightarrow> nat \<Rightarrow> (nat \<Rightarrow> nat \<Rightarrow> int) \<Rightarrow> nat \<Rightarrow> nat list \<Rightarrow> nat \<Rightarrow> bool" where
  "echelon p n A r pivs c \<longleftrightarrow>
     length pivs = r \<and> r \<le> n \<and> sorted_wrt (<) pivs \<and> (\<forall>q\<in>set pivs. q < c) \<and>
     (\<forall>i<r. eqm p (A i (pivs ! i)) 1) \<and>
     (\<forall>i<r. \<forall>i'<n. i' \<noteq> i \<longrightarrow> eqm p (A i' (pivs ! i)) 0) \<and>
     (\<forall>i<n. r \<le> i \<longrightarrow> (\<forall>j<c. eqm p (A i j) 0)) \<and>
     (\<forall>i<r. \<forall>j<pivs ! i. eqm p (A i j) 0)"

text \<open>A vector built to lie in the kernel of a matrix whose first \<open>m\<close> columns are unit
  columns: the unit vector of column \<open>j0\<close>, minus the entries of column \<open>j0\<close> in the first
  \<open>m\<close> rows, minus \<open>\<rho>\<close> times the unit vector of column \<open>q\<close>.\<close>

definition probe :: "(nat \<Rightarrow> nat \<Rightarrow> int) \<Rightarrow> nat \<Rightarrow> nat \<Rightarrow> nat \<Rightarrow> int \<Rightarrow> nat \<Rightarrow> int" where
  "probe R m j0 q \<rho> j =
     (if j = j0 then 1 else 0) - (if j < m then R j j0 else 0) - (if j = q then 1 else 0) * \<rho>"

text \<open>The augmented matrix \<open>[M | I]\<close>: row \<open>t\<close> holds position \<open>t\<close> of each of the \<open>k\<close>
  vectors, then the \<open>t\<close>-th unit row.\<close>

definition augmented :: "int \<Rightarrow> nat \<Rightarrow> nat \<Rightarrow> (nat \<Rightarrow> nat \<Rightarrow> int) \<Rightarrow> (nat \<Rightarrow> nat \<Rightarrow> int) \<Rightarrow> bool" where
  "augmented p n k A0 V \<longleftrightarrow>
     (\<forall>t<n. (\<forall>j<k. eqm p (A0 t j) (V j t)) \<and>
             (\<forall>t'<n. eqm p (A0 t (k + t')) (if t' = t then 1 else 0)))"

definition dims :: "nat \<Rightarrow> nat \<Rightarrow> 'a list list \<Rightarrow> bool" where
  "dims n N M \<longleftrightarrow> length M = n \<and> (\<forall>i<n. length (M ! i) = N)"

definition range3 :: "nat \<Rightarrow> nat \<Rightarrow> matrix \<Rightarrow> bool" where
  "range3 n N M \<longleftrightarrow> (\<forall>i<n. \<forall>j<N. 0 \<le> M ! i ! j \<and> M ! i ! j < 3)"

definition fn :: "matrix \<Rightarrow> nat \<Rightarrow> nat \<Rightarrow> int" where
  "fn M i j = M ! i ! j"

definition tern_inv ::
  "nat \<Rightarrow> nat \<Rightarrow> (nat \<Rightarrow> nat \<Rightarrow> int) \<Rightarrow> matrix \<Rightarrow> nat \<Rightarrow> nat list \<Rightarrow> nat \<Rightarrow> bool" where
  "tern_inv n N A0 M r pivs c \<longleftrightarrow>
     dims n N M \<and> range3 n N M \<and> echelon 3 n (fn M) r pivs c \<and> c \<le> N \<and>
     (\<forall>x. in_kernel 3 n N (fn M) x \<longrightarrow> in_kernel 3 n N A0 x)"

definition bin_inv ::
  "nat \<Rightarrow> nat \<Rightarrow> (nat \<Rightarrow> nat \<Rightarrow> int) \<Rightarrow> matrix \<Rightarrow> nat \<Rightarrow> nat list \<Rightarrow> nat \<Rightarrow> bool" where
  "bin_inv n N A0 mat r pivs c \<longleftrightarrow>
     dims n N mat \<and> echelon 2 n (fn mat) r pivs c \<and> c \<le> N \<and>
     (\<forall>x. in_kernel 2 n N (fn mat) x \<longrightarrow> in_kernel 2 n N A0 x)"

definition normalized_row :: "nat \<Rightarrow> rat list \<Rightarrow> rat list" where
  "normalized_row pj row = take pj row @ [1] @ map (\<lambda>x. x / row ! pj) (drop (Suc pj) row)"

text \<open>A factor that can be cancelled mod \<open>p\<close>.\<close>

definition cancels :: "int \<Rightarrow> int \<Rightarrow> bool" where
  "cancels p a \<longleftrightarrow> (\<forall>x. eqm p (a * x) 0 \<longrightarrow> eqm p x 0)"

text \<open>
  One step of a row reduction on column \<open>c\<close> with the pivot position \<open>r\<close>: the row \<open>pr\<close>
  is moved to position \<open>r\<close> and scaled by \<open>a r\<close>, every other row is scaled by a factor
  \<open>a i\<close> and loses a multiple of the pivot row, which leaves a multiple of \<open>p\<close> in column
  \<open>c\<close>. All factors can be cancelled mod \<open>p\<close>.
\<close>

definition row_step ::
  "int \<Rightarrow> nat \<Rightarrow> nat \<Rightarrow> nat \<Rightarrow> nat \<Rightarrow> (nat \<Rightarrow> nat \<Rightarrow> int) \<Rightarrow> (nat \<Rightarrow> nat \<Rightarrow> int) \<Rightarrow> bool" where
  "row_step p n N r c A A' \<longleftrightarrow>
     (\<exists>pr a m. r \<le> pr \<and> pr < n \<and> (\<forall>i<n. cancels p (a i)) \<and>
        (\<forall>j<N. eqm p (A' r j) (a r * A pr j)) \<and>
        (\<forall>i<n. i \<noteq> r \<longrightarrow> eqm p (A' i c) 0 \<and>
           (\<forall>j<N. eqm p (A' i j) (a i * A (if i = pr then r else i) j - m i * A' r j))))"

text \<open>The rows from \<open>r\<close> on are zero mod \<open>p\<close> in the columns before \<open>c\<close>.\<close>

definition below_zero :: "int \<Rightarrow> nat \<Rightarrow> (nat \<Rightarrow> nat \<Rightarrow> int) \<Rightarrow> nat \<Rightarrow> nat \<Rightarrow> bool" where
  "below_zero p n A r c \<longleftrightarrow> (\<forall>i<n. r \<le> i \<longrightarrow> (\<forall>j<c. eqm p (A i j) 0))"

text \<open>The \<open>n\<close> rows are linearly independent mod \<open>p\<close>: a combination of the rows that is
  zero mod \<open>p\<close> in each of the \<open>N\<close> columns has all its coefficients zero mod \<open>p\<close>.\<close>

definition rows_independent :: "int \<Rightarrow> nat \<Rightarrow> nat \<Rightarrow> (nat \<Rightarrow> nat \<Rightarrow> int) \<Rightarrow> bool" where
  "rows_independent p n N A \<longleftrightarrow>
     (\<forall>y. (\<forall>j<N. eqm p (\<Sum>i<n. y i * A i j) 0) \<longrightarrow> (\<forall>i<n. eqm p (y i) 0))"

text \<open>What both reductions keep while they run, apart from the shape of the matrix: the
  number of pivots found is the number of the current pivot row, the rows from there on
  are zero in the columns already visited, and the rows are linearly independent.\<close>

definition rows_inv :: "int \<Rightarrow> nat \<Rightarrow> nat \<Rightarrow> matrix \<Rightarrow> nat \<Rightarrow> nat list \<Rightarrow> nat \<Rightarrow> bool" where
  "rows_inv p n N M r pivs c \<longleftrightarrow>
     dims n N M \<and> length pivs = r \<and> r \<le> n \<and> c \<le> N \<and>
     below_zero p n (fn M) r c \<and> rows_independent p n N (fn M)"

section \<open>Properties of the cycle decomposition\<close>

lemma py_int_012:
  "py_int (CHR ''0'') = Inr 0" "py_int (CHR ''1'') = Inr 1" "py_int (CHR ''2'') = Inr 2"
  by (simp_all add: py_int_def)

lemma digit_char_012:
  "digit_char 0 = CHR ''0''" "digit_char (Suc 0) = CHR ''1''" "digit_char 2 = CHR ''2''"
  by (simp_all add: digit_char_def numeral_2_eq_2)

lemma tadd_table:
  "tadd (CHR ''0'') (CHR ''0'') = CHR ''0''" "tadd (CHR ''0'') (CHR ''1'') = CHR ''1''"
  "tadd (CHR ''0'') (CHR ''2'') = CHR ''2''" "tadd (CHR ''1'') (CHR ''0'') = CHR ''1''"
  "tadd (CHR ''1'') (CHR ''1'') = CHR ''2''" "tadd (CHR ''1'') (CHR ''2'') = CHR ''0''"
  "tadd (CHR ''2'') (CHR ''0'') = CHR ''2''" "tadd (CHR ''2'') (CHR ''1'') = CHR ''0''"
  "tadd (CHR ''2'') (CHR ''2'') = CHR ''1''"
  by (simp_all add: tadd_def py_int_012 digit_char_012)

lemma tadd_closed:
  "a \<in> {CHR ''0'', CHR ''1'', CHR ''2''} \<Longrightarrow> b \<in> {CHR ''0'', CHR ''1'', CHR ''2''} \<Longrightarrow>
   tadd a b \<in> {CHR ''0'', CHR ''1'', CHR ''2''}"
  by (auto simp: tadd_table)

lemma tadd_three:
  "a \<in> {CHR ''0'', CHR ''1'', CHR ''2''} \<Longrightarrow> b \<in> {CHR ''0'', CHR ''1'', CHR ''2''} \<Longrightarrow>
   tadd (tadd (tadd a b) b) b = a"
  by (auto simp: tadd_table)

lemma tadd_fix:
  "a \<in> {CHR ''0'', CHR ''1'', CHR ''2''} \<Longrightarrow> b \<in> {CHR ''0'', CHR ''1'', CHR ''2''} \<Longrightarrow>
   tadd a b = a \<longleftrightarrow> b = CHR ''0''"
  by (auto simp: tadd_table)

lemma tadd_two_fix:
  "a \<in> {CHR ''0'', CHR ''1'', CHR ''2''} \<Longrightarrow> b \<in> {CHR ''0'', CHR ''1'', CHR ''2''} \<Longrightarrow>
   tadd (tadd a b) b = a \<longleftrightarrow> b = CHR ''0''"
  by (auto simp: tadd_table)

lemma ternary_strings_Cons:
  "a # t \<in> ternary_strings (Suc l) \<longleftrightarrow>
   a \<in> {CHR ''0'', CHR ''1'', CHR ''2''} \<and> t \<in> ternary_strings l"
  by (auto simp: ternary_strings_def)

lemma ternary_strings_0: "t \<in> ternary_strings 0 \<longleftrightarrow> t = []"
  by (auto simp: ternary_strings_def)

lemma ternary_strings_length: "t \<in> ternary_strings l \<Longrightarrow> length t = l"
  by (simp add: ternary_strings_def)

lemma add_ternary_shift:
  "t \<in> ternary_strings l \<Longrightarrow> s \<in> ternary_strings l \<Longrightarrow> add_ternary t s = Inr (shift_by s t)"
proof (induction l arbitrary: t s)
  case 0
  then show ?case by (simp add: ternary_strings_0 shift_by_def)
next
  case (Suc l)
  from Suc.prems obtain a t' b s' where
    ts: "t = a # t'" "s = b # s'"
    by (cases t; cases s) (auto simp: ternary_strings_def)
  with Suc.prems have
    mem: "a \<in> {CHR ''0'', CHR ''1'', CHR ''2''}" "b \<in> {CHR ''0'', CHR ''1'', CHR ''2''}"
      "t' \<in> ternary_strings l" "s' \<in> ternary_strings l"
    by (simp_all add: ternary_strings_Cons)
  from py_int_ternary[OF mem(1)] py_int_ternary[OF mem(2)] obtain x y where
    xy: "py_int a = Inr x" "py_int b = Inr y" by blast
  from Suc.IH[OF mem(3,4)] have rec: "add_ternary t' s' = Inr (shift_by s' t')" .
  show ?case
    using str_int_mod3[of "x + y"]
    by (simp add: ts xy rec shift_by_def tadd_def)
qed

lemma shift_by_closed:
  "t \<in> ternary_strings l \<Longrightarrow> s \<in> ternary_strings l \<Longrightarrow> shift_by s t \<in> ternary_strings l"
  using add_ternary_shape[of t s "shift_by s t"] add_ternary_shift[of t l s]
  by (simp add: ternary_strings_length)

lemma shift_by_three:
  "t \<in> ternary_strings l \<Longrightarrow> s \<in> ternary_strings l \<Longrightarrow>
   shift_by s (shift_by s (shift_by s t)) = t"
proof (induction l arbitrary: t s)
  case 0
  then show ?case by (simp add: ternary_strings_0 shift_by_def)
next
  case (Suc l)
  from Suc.prems obtain a t' b s' where
    ts: "t = a # t'" "s = b # s'"
    by (cases t; cases s) (auto simp: ternary_strings_def)
  with Suc.prems have
    mem: "a \<in> {CHR ''0'', CHR ''1'', CHR ''2''}" "b \<in> {CHR ''0'', CHR ''1'', CHR ''2''}"
      "t' \<in> ternary_strings l" "s' \<in> ternary_strings l"
    by (simp_all add: ternary_strings_Cons)
  from Suc.IH[OF mem(3,4)] tadd_three[OF mem(1,2)] show ?case
    by (simp add: ts shift_by_def)
qed

lemma shift_by_fix:
  "t \<in> ternary_strings l \<Longrightarrow> s \<in> ternary_strings l \<Longrightarrow>
   shift_by s t = t \<longleftrightarrow> s = replicate l (CHR ''0'')"
proof (induction l arbitrary: t s)
  case 0
  then show ?case by (simp add: ternary_strings_0 shift_by_def)
next
  case (Suc l)
  from Suc.prems obtain a t' b s' where
    ts: "t = a # t'" "s = b # s'"
    by (cases t; cases s) (auto simp: ternary_strings_def)
  with Suc.prems have
    mem: "a \<in> {CHR ''0'', CHR ''1'', CHR ''2''}" "b \<in> {CHR ''0'', CHR ''1'', CHR ''2''}"
      "t' \<in> ternary_strings l" "s' \<in> ternary_strings l"
    by (simp_all add: ternary_strings_Cons)
  from Suc.IH[OF mem(3,4)] tadd_fix[OF mem(1,2)] show ?case
    by (simp add: ts shift_by_def)
qed

lemma shift_by_two_fix:
  "t \<in> ternary_strings l \<Longrightarrow> s \<in> ternary_strings l \<Longrightarrow>
   shift_by s (shift_by s t) = t \<longleftrightarrow> s = replicate l (CHR ''0'')"
proof (induction l arbitrary: t s)
  case 0
  then show ?case by (simp add: ternary_strings_0 shift_by_def)
next
  case (Suc l)
  from Suc.prems obtain a t' b s' where
    ts: "t = a # t'" "s = b # s'"
    by (cases t; cases s) (auto simp: ternary_strings_def)
  with Suc.prems have
    mem: "a \<in> {CHR ''0'', CHR ''1'', CHR ''2''}" "b \<in> {CHR ''0'', CHR ''1'', CHR ''2''}"
      "t' \<in> ternary_strings l" "s' \<in> ternary_strings l"
    by (simp_all add: ternary_strings_Cons)
  from Suc.IH[OF mem(3,4)] tadd_two_fix[OF mem(1,2)] show ?case
    by (simp add: ts shift_by_def)
qed

text \<open>What \<open>find_cycle\<close> returns: a single string for the all-zero secret, the three
  distinct strings of the orbit otherwise.\<close>

lemma find_cycle_zero:
  assumes "t \<in> ternary_strings l" and "s = replicate l (CHR ''0'')"
  shows "find_cycle t s = Inr [t]"
proof -
  have s: "s \<in> ternary_strings l" using assms(2) by (auto simp: ternary_strings_def)
  have fixed: "shift_by s t = t" using shift_by_fix[OF assms(1) s] assms(2) by simp
  have s1: "find_cycle_loop s t [t] {t} = Inr [t]"
    by (subst find_cycle_loop.simps) simp
  show ?thesis
    unfolding find_cycle_def
    using add_ternary_shift[OF assms(1) s] fixed s1
    by (subst find_cycle_loop.simps) simp
qed

lemma find_cycle_nonzero:
  assumes t: "t \<in> ternary_strings l" and s: "s \<in> ternary_strings l"
    and nz: "s \<noteq> replicate l (CHR ''0'')"
  shows "find_cycle t s = Inr [t, shift_by s t, shift_by s (shift_by s t)]"
    and "distinct [t, shift_by s t, shift_by s (shift_by s t)]"
proof -
  let ?t1 = "shift_by s t" and ?t2 = "shift_by s (shift_by s t)"
  have t1: "?t1 \<in> ternary_strings l" using shift_by_closed[OF t s] .
  have t2: "?t2 \<in> ternary_strings l" using shift_by_closed[OF t1 s] .
  have d01: "?t1 \<noteq> t" using shift_by_fix[OF t s] nz by simp
  have d12: "?t2 \<noteq> ?t1" using shift_by_fix[OF t1 s] nz by simp
  have d02: "?t2 \<noteq> t" using shift_by_two_fix[OF t s] nz by simp
  have again: "shift_by s ?t2 = t" using shift_by_three[OF t s] .
  show "distinct [t, ?t1, ?t2]" using d01 d12 d02 by auto
  have s3: "find_cycle_loop s t [t, ?t1, ?t2] {?t2, ?t1, t} = Inr [t, ?t1, ?t2]"
    by (subst find_cycle_loop.simps) simp
  have s2: "find_cycle_loop s ?t2 [t, ?t1] {?t1, t} = Inr [t, ?t1, ?t2]"
    using d12 d02 add_ternary_shift[OF t2 s] again s3
    by (subst find_cycle_loop.simps) simp
  have s1: "find_cycle_loop s ?t1 [t] {t} = Inr [t, ?t1, ?t2]"
    using d01 add_ternary_shift[OF t1 s] s2
    by (subst find_cycle_loop.simps) simp
  show "find_cycle t s = Inr [t, ?t1, ?t2]"
    unfolding find_cycle_def
    using add_ternary_shift[OF t s] s1
    by (subst find_cycle_loop.simps) simp
qed

lemma ternary_strings_Suc_snoc:
  "ternary_strings (Suc l) = (\<Union>x\<in>ternary_strings l. (\<lambda>y. x @ [y]) ` {CHR ''0'', CHR ''1'', CHR ''2''})"
proof (intro set_eqI iffI)
  fix t assume t: "t \<in> ternary_strings (Suc l)"
  then have "t \<noteq> []" by (auto simp: ternary_strings_def)
  then obtain x y where xy: "t = x @ [y]" by (cases t rule: rev_cases) auto
  with t have "x \<in> ternary_strings l" "y \<in> {CHR ''0'', CHR ''1'', CHR ''2''}"
    by (auto simp: ternary_strings_def)
  with xy show "t \<in> (\<Union>x\<in>ternary_strings l. (\<lambda>y. x @ [y]) ` {CHR ''0'', CHR ''1'', CHR ''2''})"
    by blast
next
  fix t assume "t \<in> (\<Union>x\<in>ternary_strings l. (\<lambda>y. x @ [y]) ` {CHR ''0'', CHR ''1'', CHR ''2''})"
  then show "t \<in> ternary_strings (Suc l)" by (auto simp: ternary_strings_def)
qed

lemma set_generate_ternary_numbers:
  "set (generate_ternary_numbers n) = ternary_strings n"
proof (induction n)
  case 0
  then show ?case by (auto simp: ternary_strings_def)
next
  case (Suc n)
  have "set (generate_ternary_numbers (Suc n)) =
        (\<Union>x\<in>set (generate_ternary_numbers n). (\<lambda>y. x @ [y]) ` {CHR ''0'', CHR ''1'', CHR ''2''})"
    by auto
  then show ?case using Suc.IH ternary_strings_Suc_snoc by simp
qed

lemma card_ternary_strings: "card (ternary_strings n) = 3 ^ n"
proof -
  have "ternary_strings n = {t. set t \<subseteq> {CHR ''0'', CHR ''1'', CHR ''2''} \<and> length t = n}"
    by (auto simp: ternary_strings_def)
  then show ?thesis
    using card_lists_length_eq[of "{CHR ''0'', CHR ''1'', CHR ''2''}" n]
    by (simp add: numeral_3_eq_3)
qed

lemma cycles_loop_partition:
  assumes s: "s \<in> ternary_strings l"
    and L: "L = (if s = replicate l (CHR ''0'') then 1 else 3)"
  shows "set rest \<subseteq> ternary_strings l \<Longrightarrow> seen = set (concat cycles) \<Longrightarrow>
    distinct (concat cycles) \<Longrightarrow> seen \<subseteq> ternary_strings l \<Longrightarrow>
    (\<forall>t\<in>seen. shift_by s t \<in> seen) \<Longrightarrow> (\<forall>c\<in>set cycles. length c = L) \<Longrightarrow>
    \<exists>cs. cycles_loop s rest cycles seen = Inr cs \<and> distinct (concat cs) \<and>
      seen \<union> set rest \<subseteq> set (concat cs) \<and> set (concat cs) \<subseteq> ternary_strings l \<and>
      (\<forall>c\<in>set cs. length c = L)"
proof (induction rest arbitrary: cycles seen)
  case Nil
  then show ?case by simp
next
  case (Cons number rest)
  have num: "number \<in> ternary_strings l" and rest: "set rest \<subseteq> ternary_strings l"
    using Cons.prems(1) by simp_all
  show ?case
  proof (cases "number \<in> seen")
    case True
    from Cons.IH[OF rest Cons.prems(2-6)] True show ?thesis
      by (simp del: set_concat) blast
  next
    case False
    show ?thesis
    proof (cases "s = replicate l (CHR ''0'')")
      case zero: True
      have fc: "find_cycle number s = Inr [number]" using find_cycle_zero[OF num zero] .
      have fixed: "shift_by s number = number" using shift_by_fix[OF num s] zero by simp
      have "\<exists>cs. cycles_loop s rest (cycles @ [[number]]) (seen \<union> set [number]) = Inr cs \<and>
          distinct (concat cs) \<and>
          (seen \<union> set [number]) \<union> set rest \<subseteq> set (concat cs) \<and>
          set (concat cs) \<subseteq> ternary_strings l \<and> (\<forall>c\<in>set cs. length c = L)"
      proof (rule Cons.IH[OF rest])
        show "seen \<union> set [number] = set (concat (cycles @ [[number]]))"
          using Cons.prems(2) by auto
        show "distinct (concat (cycles @ [[number]]))"
          using Cons.prems(2,3) False by auto
        show "seen \<union> set [number] \<subseteq> ternary_strings l"
          using Cons.prems(4) num by auto
        show "\<forall>t\<in>seen \<union> set [number]. shift_by s t \<in> seen \<union> set [number]"
          using Cons.prems(5) fixed by auto
        show "\<forall>c\<in>set (cycles @ [[number]]). length c = L"
          using Cons.prems(6) L zero by auto
      qed
      then show ?thesis using False fc by (auto simp del: set_concat)
    next
      case nz: False
      let ?t1 = "shift_by s number" and ?t2 = "shift_by s (shift_by s number)"
      let ?cyc = "[number, ?t1, ?t2]"
      have fc: "find_cycle number s = Inr ?cyc" and dist: "distinct ?cyc"
        using find_cycle_nonzero[OF num s nz] by blast+
      have t1: "?t1 \<in> ternary_strings l" using shift_by_closed[OF num s] .
      have t2: "?t2 \<in> ternary_strings l" using shift_by_closed[OF t1 s] .
      have again: "shift_by s ?t2 = number" using shift_by_three[OF num s] .
      have n2: "?t2 \<notin> seen" using Cons.prems(5) again False by metis
      have n1: "?t1 \<notin> seen" using Cons.prems(5) n2 by metis
      have "\<exists>cs. cycles_loop s rest (cycles @ [?cyc]) (seen \<union> set ?cyc) = Inr cs \<and>
          distinct (concat cs) \<and>
          (seen \<union> set ?cyc) \<union> set rest \<subseteq> set (concat cs) \<and>
          set (concat cs) \<subseteq> ternary_strings l \<and> (\<forall>c\<in>set cs. length c = L)"
      proof (rule Cons.IH[OF rest])
        show "seen \<union> set ?cyc = set (concat (cycles @ [?cyc]))"
          using Cons.prems(2) by auto
        show "distinct (concat (cycles @ [?cyc]))"
          using Cons.prems(2,3) False n1 n2 dist by auto
        show "seen \<union> set ?cyc \<subseteq> ternary_strings l"
          using Cons.prems(4) num t1 t2 by auto
        show "\<forall>t\<in>seen \<union> set ?cyc. shift_by s t \<in> seen \<union> set ?cyc"
          using Cons.prems(5) again by auto
        show "\<forall>c\<in>set (cycles @ [?cyc]). length c = L"
          using Cons.prems(6) L nz by auto
      qed
      then show ?thesis using False fc by (auto simp del: set_concat)
    qed
  qed
qed

lemma find_ternary_cycles_partition:
  assumes s: "s \<in> ternary_strings n"
  shows "\<exists>cs. find_ternary_cycles n s = Inr cs \<and> distinct (concat cs) \<and>
      set (concat cs) = ternary_strings n \<and>
      (\<forall>c\<in>set cs. length c = (if s = replicate n (CHR ''0'') then 1 else 3))"
proof -
  have "\<exists>cs. cycles_loop s (generate_ternary_numbers n) [] {} = Inr cs \<and> distinct (concat cs) \<and>
      {} \<union> set (generate_ternary_numbers n) \<subseteq> set (concat cs) \<and>
      set (concat cs) \<subseteq> ternary_strings n \<and>
      (\<forall>c\<in>set cs. length c = (if s = replicate n (CHR ''0'') then 1 else 3))"
    by (rule cycles_loop_partition[OF s refl]) (simp_all add: set_generate_ternary_numbers)
  then show ?thesis
    unfolding find_ternary_cycles_def by (auto simp: set_generate_ternary_numbers)
qed

lemma length_concat_const:
  "\<forall>c\<in>set cs. length c = L \<Longrightarrow> length (concat cs) = L * length cs"
  by (induction cs) auto

text \<open>
  Claim C4. For every length \<open>n\<close> (in particular \<open>1 \<le> n \<le> 6\<close>) and every ternary
  secret string of that length, \<open>find_ternary_cycles\<close> returns a list of cycles whose
  elements, taken together, list every ternary string of length \<open>n\<close> exactly once:
  no string occurs twice, the strings that occur are exactly the \<open>3 ^ n\<close> ternary
  strings. For the all-zero secret there are \<open>3 ^ n\<close> cycles, each a singleton.
\<close>

theorem cycles_enumerate_universe:
  assumes "s \<in> ternary_strings n"
  shows "\<exists>cycles. find_ternary_cycles n s = Inr cycles \<and>
      distinct (concat cycles) \<and> set (concat cycles) = ternary_strings n \<and>
      length (concat cycles) = 3 ^ n \<and>
      (s = replicate n (CHR ''0'') \<longrightarrow>
         length cycles = 3 ^ n \<and> (\<forall>c\<in>set cycles. length c = 1))"
proof -
  from find_ternary_cycles_partition[OF assms] obtain cs where
    cs: "find_ternary_cycles n s = Inr cs" "distinct (concat cs)"
      "set (concat cs) = ternary_strings n"
      "\<forall>c\<in>set cs. length c = (if s = replicate n (CHR ''0'') then 1 else 3)"
    by blast
  have len: "length (concat cs) = 3 ^ n"
    using distinct_card[OF cs(2)] cs(3) card_ternary_strings[of n] by simp
  have "length cs = 3 ^ n \<and> (\<forall>c\<in>set cs. length c = 1)" if "s = replicate n (CHR ''0'')"
    using length_concat_const[of cs 1] cs(4) len that by simp
  with cs len show ?thesis by blast
qed

theorem cycles_enumerate_universe_witness:
  "''00'' \<in> ternary_strings 2 \<and>
   (\<exists>cycles. find_ternary_cycles 2 ''00'' = Inr cycles \<and>
      distinct (concat cycles) \<and> set (concat cycles) = ternary_strings 2 \<and>
      length (concat cycles) = 9 \<and> length cycles = 9 \<and> (\<forall>c\<in>set cycles. length c = 1))"
proof -
  have mem: "''00'' \<in> ternary_strings 2" by (simp add: ternary_strings_def)
  have zero: "''00'' = replicate 2 (CHR ''0'')" by (simp add: numeral_2_eq_2)
  show ?thesis using cycles_enumerate_universe[OF mem] mem zero by simp
qed

text \<open>
  Claim C10. For every \<open>n \<ge> 1\<close> and every non-zero ternary secret string of length
  \<open>n\<close>, every cycle returned by \<open>find_ternary_cycles\<close> has exactly three elements
  and there are exactly \<open>3 ^ (n - 1)\<close> cycles, the number \<open>3 ** n / 3\<close> with which
  \<open>simon_ternary_algorithm\<close> sizes the ancilla register.
\<close>

theorem nonzero_secret_cycle_count:
  assumes "1 \<le> n" and "s \<in> ternary_strings n" and "s \<noteq> replicate n (CHR ''0'')"
  shows "\<exists>cycles. find_ternary_cycles n s = Inr cycles \<and>
      (\<forall>c\<in>set cycles. length c = 3) \<and> length cycles = 3 ^ (n - 1)"
proof -
  from find_ternary_cycles_partition[OF assms(2)] assms(3) obtain cs where
    cs: "find_ternary_cycles n s = Inr cs" "distinct (concat cs)"
      "set (concat cs) = ternary_strings n" "\<forall>c\<in>set cs. length c = 3"
    by auto
  have "length (concat cs) = 3 ^ n"
    using distinct_card[OF cs(2)] cs(3) card_ternary_strings[of n] by simp
  then have "3 * length cs = 3 ^ n" using length_concat_const[OF cs(4)] by simp
  moreover obtain m where "n = Suc m" using assms(1) by (cases n) auto
  ultimately have "length cs = 3 ^ (n - 1)" by simp
  with cs show ?thesis by blast
qed

theorem nonzero_secret_cycle_count_witness:
  "(1::nat) \<le> 2 \<and> ''12'' \<in> ternary_strings 2 \<and> ''12'' \<noteq> replicate 2 (CHR ''0'') \<and>
   (\<exists>cycles. find_ternary_cycles 2 ''12'' = Inr cycles \<and>
      (\<forall>c\<in>set cycles. length c = 3) \<and> length cycles = 3)"
proof -
  have mem: "''12'' \<in> ternary_strings 2" by (simp add: ternary_strings_def)
  have nz: "''12'' \<noteq> replicate 2 (CHR ''0'')" by (simp add: numeral_2_eq_2)
  show ?thesis using nonzero_secret_cycle_count[OF _ mem nz] mem nz by simp
qed

section \<open>The literal instance\<close>

text \<open>
  Claim C5 says that \<open>solve_equation\<close> returns \<open>101\<close> on the vectors \<open>[1,1,0]\<close> and
  \<open>[0,1,1]\<close>. It does not: \<open>[1,1,0]\<close> is not orthogonal to \<open>101\<close> mod 2.
\<close>

theorem literal_instance_not_101:
  "solve_equation [[1, 1, 0], [0, 1, 1]] \<noteq> Inr ''101''"
  by code_simp

text \<open>
  Claim C5, amended. On the vectors \<open>[1,1,0]\<close> and \<open>[0,1,1]\<close> the function
  \<open>solve_equation\<close> returns \<open>111\<close>, the one non-zero string orthogonal to both mod 2.
\<close>

theorem literal_instance_returns_111:
  "solve_equation [[1, 1, 0], [0, 1, 1]] = Inr ''111''"
  by code_simp

section \<open>No equation collected\<close>

text \<open>
  Claim C7 asks that with no equation collected both solvers return the all-zero string
  in the shape of an ordinary result. The binary \<open>run_and_analyze\<close> does. The ternary
  \<open>recover_secret_string_3d\<close> returns the pair \<open>('00', 0)\<close> for \<open>n = 2\<close> when only the
  all-zero outcome was measured, and a plain string as soon as one equation exists.
\<close>

theorem degenerate_3d_returns_pair:
  "recover_secret_string_3d 2 [(''0000'', 2)] = Inr (PyTuple ''00'' 0) \<and>
   recover_secret_string_3d 2 [(''0001'', 2)] = Inr (PyStr ''10'') \<and>
   run_and_analyze 2 [(''00'', 2)] = Inr ''00''"
  by code_simp

section \<open>Pivot columns\<close>

lemma find_pivot_row_Some:
  "find_pivot_row M c ris = Some pr \<Longrightarrow> pr \<in> set ris \<and> M ! pr ! c \<noteq> 0"
  by (induction ris) (auto split: if_splits)

lemma rref_mod3_loop_pivots:
  "rref_mod3_loop rows cs M r pivot_cols = Inr (R, pivs) \<Longrightarrow>
   sorted_wrt (<) cs \<Longrightarrow> sorted_wrt (<) pivot_cols \<Longrightarrow>
   (\<forall>p\<in>set pivot_cols. \<forall>c\<in>set cs. p < c) \<Longrightarrow> r \<le> rows \<Longrightarrow>
   sorted_wrt (<) pivs \<and> set pivs \<subseteq> set pivot_cols \<union> set cs \<and>
   length pivs + r \<le> length pivot_cols + rows"
proof (induction cs arbitrary: M r pivot_cols)
  case Nil
  then show ?case by simp
next
  case (Cons c cs)
  have sorted_cs: "sorted_wrt (<) cs" and c_lt: "\<forall>c'\<in>set cs. c < c'"
    using Cons.prems(2) by simp_all
  show ?case
  proof (cases "find_pivot_row M c [r..<rows]")
    case None
    with Cons.prems(1) have run: "rref_mod3_loop rows cs M r pivot_cols = Inr (R, pivs)"
      by simp
    from Cons.IH[OF run sorted_cs Cons.prems(3) _ Cons.prems(5)] Cons.prems(4)
    show ?thesis by auto
  next
    case (Some pivot_row)
    from find_pivot_row_Some[OF Some] have r_lt: "r < rows" by simp
    from Some Cons.prems(1) obtain M' where
      M': "normalize_pivot_row (if pivot_row \<noteq> r then row_swap pivot_row r M else M) r c = Inr M'"
      and rest: "(if r + 1 = rows then Inr (eliminate_mod3 M' r c, pivot_cols @ [c])
                 else rref_mod3_loop rows cs (eliminate_mod3 M' r c) (r + 1) (pivot_cols @ [c]))
                 = Inr (R, pivs)"
      by (auto split: sum.splits)
    have sorted_new: "sorted_wrt (<) (pivot_cols @ [c])"
      using Cons.prems(3,4) by (auto simp: sorted_wrt_append)
    have below: "\<forall>p\<in>set (pivot_cols @ [c]). \<forall>c'\<in>set cs. p < c'"
      using Cons.prems(4) c_lt by auto
    show ?thesis
    proof (cases "r + 1 = rows")
      case True
      with rest have "pivs = pivot_cols @ [c]" by simp
      with sorted_new True show ?thesis by auto
    next
      case False
      with rest have run:
        "rref_mod3_loop rows cs (eliminate_mod3 M' r c) (r + 1) (pivot_cols @ [c]) = Inr (R, pivs)"
        by simp
      from Cons.IH[OF run sorted_cs sorted_new below] r_lt
      show ?thesis by auto
    qed
  qed
qed

lemma row_reduce_pivots:
  "row_reduce iszerofunc rows cols mat piv_row piv_col pivot_cols = (R, pivs) \<Longrightarrow>
   sorted_wrt (<) pivot_cols \<Longrightarrow> (\<forall>p\<in>set pivot_cols. p < piv_col) \<Longrightarrow>
   piv_row \<le> rows \<Longrightarrow>
   sorted_wrt (<) pivs \<and> (\<forall>p\<in>set pivs. p < cols \<or> p \<in> set pivot_cols) \<and>
   length pivs + piv_row \<le> length pivot_cols + rows"
proof (induction iszerofunc rows cols mat piv_row piv_col pivot_cols
    rule: row_reduce.induct)
  case (1 iszerofunc rows cols mat piv_row piv_col pivot_cols)
  show ?case
  proof (cases "piv_col < cols \<and> piv_row < rows")
    case False
    with "1.prems" show ?thesis by (simp add: row_reduce.simps)
  next
    case True
    show ?thesis
    proof (cases "find_pivot_offset iszerofunc (drop piv_row (get_col mat piv_col))")
      case None
      with True "1.prems"(1) have run:
        "row_reduce iszerofunc rows cols mat piv_row (piv_col + 1) pivot_cols = (R, pivs)"
        by (simp add: row_reduce.simps)
      from "1.IH"(1)[OF True None run "1.prems"(2) _ "1.prems"(4)] "1.prems"(3)
      show ?thesis by (auto simp: less_Suc_eq)
    next
      case (Some pivot_offset)
      with True "1.prems"(1) have run:
        "row_reduce iszerofunc rows cols
           (cross_cancel_rows iszerofunc
              (if pivot_offset \<noteq> 0 then row_swap piv_row (pivot_offset + piv_row) mat else mat)
              piv_row piv_col)
           (piv_row + 1) (piv_col + 1) (pivot_cols @ [piv_col]) = (R, pivs)"
        by (simp add: row_reduce.simps)
      have sorted_new: "sorted_wrt (<) (pivot_cols @ [piv_col])"
        using "1.prems"(2,3) by (auto simp: sorted_wrt_append)
      have below: "\<forall>p\<in>set (pivot_cols @ [piv_col]). p < piv_col + 1"
        using "1.prems"(3) by auto
      from "1.IH"(2)[OF True Some run sorted_new below] True
      show ?thesis by auto
    qed
  qed
qed

section \<open>Which row of the reduced matrix gives the secret\<close>

lemma solution_scan_found:
  "solution_scan k rows True first_solution = first_solution"
  by (induction rows) (simp_all add: Let_def)

lemma solution_scan_first:
  "solution_scan k rows False first_solution =
     (case find (\<lambda>row. list_all (\<lambda>val. val mod 3 = 0) (take k row)) rows of
        None \<Rightarrow> first_solution
      | Some row \<Rightarrow> concat (map str_int (drop k row)))"
  by (induction rows) (simp_all add: Let_def solution_scan_found mod3_def)

text \<open>
  Claim C2 says that both extractors read the last row only. The ternary one does not:
  for the single equation \<open>[1,0,0]\<close> the reduced matrix has the last row
  \<open>[0,0,0,1]\<close>, whose identity block reads \<open>001\<close>, and the function returns \<open>010\<close>,
  the identity block of the row before.
\<close>

theorem only_last_row_counterexample:
  "rref_mod3 (hstack (T [[1, 0, 0]]) (eye 3)) =
     Inr ([[1, 1, 0, 0], [0, 0, 1, 0], [0, 0, 0, 1]], [0, 2, 3]) \<and>
   first_solution_3d 3 1 [[1, 1, 0, 0], [0, 0, 1, 0], [0, 0, 0, 1]] = ''010'' \<and>
   concat (map str_int (drop 1 (last [[1, 1, 0, 0], [0, 0, 1, 0], [0, 0, 0, 1 :: int]]))) = ''001'' \<and>
   recover_secret_string_3d 3 [(''010000'', 1)] = Inr (PyStr ''010'')"
  by code_simp

text \<open>
  Claim C2, amended. The binary extractor reads the last row only: two matrices with
  the same last row give the same result, the identity-block entries of that row when
  its first \<open>k\<close> entries are all zero and the all-zero string of length \<open>n\<close>
  otherwise. The ternary extractor scans the rows from the first to the last and
  returns the identity-block entries of the first row whose first \<open>k\<close> entries are all
  zero mod 3, and the all-zero string of length \<open>n\<close> when there is no such row.
\<close>

theorem extraction_row_policy:
  "(M \<noteq> [] \<longrightarrow> M' \<noteq> [] \<longrightarrow> last M = last M' \<longrightarrow>
      last_row_solution n k M = last_row_solution n k M') \<and>
   (M \<noteq> [] \<longrightarrow>
      last_row_solution n k M =
        Inr (if list_all (\<lambda>v. v = 0) (take k (last M))
             then concat (map str_int (drop k (last M))) else replicate n (CHR ''0''))) \<and>
   first_solution_3d n k M =
     (case find (\<lambda>row. list_all (\<lambda>v. v mod 3 = 0) (take k row)) M of
        None \<Rightarrow> replicate n (CHR ''0'')
      | Some row \<Rightarrow> concat (map str_int (drop k row)))"
  by (simp add: last_row_solution_def first_solution_3d_def solution_scan_first)

theorem extraction_row_policy_witness:
  "[[1, 0, 1], [0, 1, 1 :: int]] \<noteq> [] \<and> [[0, 1, 1 :: int]] \<noteq> [] \<and>
   last [[1, 0, 1], [0, 1, 1 :: int]] = last [[0, 1, 1 :: int]] \<and>
   last_row_solution 2 1 [[1, 0, 1], [0, 1, 1]] = last_row_solution 2 1 [[0, 1, 1]] \<and>
   last_row_solution 2 1 [[1, 0, 1], [0, 1, 1]] = Inr ''11'' \<and>
   first_solution_3d 2 1 [[1, 0, 1], [0, 1, 1]] = ''11''"
proof -
  have a: "last_row_solution 2 1 [[0, 1, 1]] = Inr ''11''" by code_simp
  have b: "first_solution_3d 2 1 [[1, 0, 1], [0, 1, 1]] = ''11''" by code_simp
  show ?thesis
    using extraction_row_policy[of "[[1, 0, 1], [0, 1, 1]]" "[[0, 1, 1]]" 2 1] a b
    by simp
qed

section \<open>The order of the two recovered secrets\<close>

lemma ancilla_bucket_cases:
  "ancilla_bucket True keys =
     foldl (\<lambda>d key. dict_set d key 1) [] (map tl (filter (\<lambda>item. hd item = CHR ''1'') keys))"
  "ancilla_bucket False keys =
     foldl (\<lambda>d key. dict_set d key 1) [] (map tl (filter (\<lambda>item. hd item \<noteq> CHR ''1'') keys))"
  by (simp_all add: ancilla_bucket_def)

lemma split_counts_buckets:
  "\<forall>item\<in>set items. item \<noteq> [] \<Longrightarrow>
   split_counts items dic1 dic2 =
     Inr (foldl (\<lambda>d key. dict_set d key 1) dic1
            (map tl (filter (\<lambda>item. hd item = CHR ''1'') items)),
          foldl (\<lambda>d key. dict_set d key 1) dic2
            (map tl (filter (\<lambda>item. hd item \<noteq> CHR ''1'') items)))"
proof (induction items arbitrary: dic1 dic2)
  case Nil
  then show ?case by simp
next
  case (Cons item items)
  then obtain c rest where item: "item = c # rest" by (cases item) auto
  from Cons.prems have "\<forall>item\<in>set items. item \<noteq> []" by simp
  from Cons.IH[OF this] show ?case by (simp add: item)
qed

text \<open>
  Claim C9 says that \<open>run_and_analyze\<close> of the two-secret variant returns the secret of
  the samples with ancilla bit 1 first. With the one sample \<open>111\<close> the bit-1 samples give
  \<open>11\<close> and the bit-0 samples give \<open>00\<close>, and the result is not \<open>(11, 00)\<close>.
\<close>

theorem bucket_order_counterexample:
  "recover_secret_string 2 [(''11'', 1)] = Inr ''11'' \<and>
   recover_secret_string 2 [] = Inr ''00'' \<and>
   run_and_analyze_multi 2 [(''111'', 2)] \<noteq> Inr (''11'', ''00'')"
  by code_simp

text \<open>
  Claim C9, amended. For every sample set whose keys are not empty, \<open>run_and_analyze\<close>
  of the two-secret variant returns the pair (secret recovered from the samples whose
  ancilla bit is not 1, secret recovered from the samples whose ancilla bit is 1), in
  that order, and raises what the first failing recovery raises.
\<close>

theorem bucket_zero_first:
  assumes "\<forall>item\<in>set (map fst counts). item \<noteq> []"
  shows "run_and_analyze_multi n counts =
     (case recover_secret_string n (ancilla_bucket False (map fst counts)) of
        Inl e \<Rightarrow> Inl e
      | Inr secret0 \<Rightarrow>
          (case recover_secret_string n (ancilla_bucket True (map fst counts)) of
             Inl e \<Rightarrow> Inl e
           | Inr secret1 \<Rightarrow> Inr (secret0, secret1)))"
  unfolding run_and_analyze_multi_def ancilla_bucket_cases
  using split_counts_buckets[OF assms, of "[]" "[]"] by simp

theorem bucket_zero_first_witness:
  "''111'' \<noteq> [] \<and> ''001'' \<noteq> [] \<and>
   ancilla_bucket False (map fst [(''111'', 2 :: int), (''001'', 1)]) = [(''01'', 1)] \<and>
   ancilla_bucket True (map fst [(''111'', 2 :: int), (''001'', 1)]) = [(''11'', 1)] \<and>
   recover_secret_string 2 [(''01'', 1)] = Inr ''10'' \<and>
   recover_secret_string 2 [(''11'', 1)] = Inr ''11'' \<and>
   run_and_analyze_multi 2 [(''111'', 2), (''001'', 1)] = Inr (''10'', ''11'')"
proof -
  have keys: "\<forall>item\<in>set (map fst [(''111'', 2 :: int), (''001'', 1)]). item \<noteq> []" by simp
  have b0: "ancilla_bucket False (map fst [(''111'', 2 :: int), (''001'', 1)]) = [(''01'', 1)]"
    by code_simp
  have b1: "ancilla_bucket True (map fst [(''111'', 2 :: int), (''001'', 1)]) = [(''11'', 1)]"
    by code_simp
  have r0: "recover_secret_string 2 [(''01'', 1)] = Inr ''10''" by code_simp
  have r1: "recover_secret_string 2 [(''11'', 1)] = Inr ''11''" by code_simp
  show ?thesis
    using bucket_zero_first[OF keys, of 2] keys
    by (simp only: b0 b1 r0 r1) simp
qed

section \<open>Row operations mod p\<close>

lemma eqm_refl [simp]: "eqm p a a"
  by (simp add: eqm_def)

lemma eqm_sym: "eqm p a b \<Longrightarrow> eqm p b a"
  by (simp add: eqm_def)

lemma eqm_trans: "eqm p a b \<Longrightarrow> eqm p b c \<Longrightarrow> eqm p a c"
  by (simp add: eqm_def)

lemma eqm_add: "eqm p a b \<Longrightarrow> eqm p c d \<Longrightarrow> eqm p (a + c) (b + d)"
  unfolding eqm_def by (rule mod_add_cong)

lemma eqm_diff: "eqm p a b \<Longrightarrow> eqm p c d \<Longrightarrow> eqm p (a - c) (b - d)"
  unfolding eqm_def by (rule mod_diff_cong)

lemma eqm_mult: "eqm p a b \<Longrightarrow> eqm p c d \<Longrightarrow> eqm p (a * c) (b * d)"
  unfolding eqm_def by (rule mod_mult_cong)

lemma eqm_sum:
  "(\<And>j. j \<in> S \<Longrightarrow> eqm p (f j) (g j)) \<Longrightarrow> eqm p (sum f S) (sum g S)"
proof (induction S rule: infinite_finite_induct)
  case (insert x F)
  then show ?case by (simp add: eqm_add)
qed simp_all

lemma eqm_mod [simp]: "eqm p (a mod p) a"
  by (simp add: eqm_def)

lemma eqm_sum_zero_scaled:
  assumes "eqm p (\<Sum>j<N. f j * x j) 0"
  shows "eqm p (\<Sum>j<N. (k * f j) * x j) 0"
proof -
  have "(\<Sum>j<N. (k * f j) * x j) = k * (\<Sum>j<N. f j * x j)"
    by (simp add: sum_distrib_left mult.assoc)
  moreover have "eqm p (k * (\<Sum>j<N. f j * x j)) (k * 0)"
    by (rule eqm_mult[OF eqm_refl assms])
  ultimately show ?thesis by simp
qed

lemma eqm_sum_cong_zero:
  assumes "\<And>j. j < N \<Longrightarrow> eqm p (f j) (g j)" and "eqm p (\<Sum>j<N. g j * x j) 0"
  shows "eqm p (\<Sum>j<N. f j * x j) 0"
proof -
  have "eqm p (\<Sum>j<N. f j * x j) (\<Sum>j<N. g j * x j)"
    by (rule eqm_sum) (simp add: assms(1) eqm_mult)
  then show ?thesis using assms(2) eqm_trans by blast
qed

lemma kernel_step:
  assumes step: "pivot_rel p n N r c A A'" and ker: "in_kernel p n N A' x"
  shows "in_kernel p n N A x"
proof -
  from step obtain pr u u' m where
    pr: "r \<le> pr" "pr < n" and unit: "eqm p (u * u') 1"
    and rowr: "\<And>j. j < N \<Longrightarrow> eqm p (A' r j) (u * A pr j)"
    and rows: "\<And>i j. i < n \<Longrightarrow> i \<noteq> r \<Longrightarrow> j < N \<Longrightarrow>
        eqm p (A' i j) (A (if i = pr then r else i) j - m i * A' r j)"
    unfolding pivot_rel_def by blast
  have r_lt: "r < n" using pr by simp
  have kr: "eqm p (\<Sum>j<N. A' r j * x j) 0" using ker r_lt by (simp add: in_kernel_def)
  have row_pr: "eqm p (\<Sum>j<N. A pr j * x j) 0"
  proof (rule eqm_sum_cong_zero[where g = "\<lambda>j. u' * A' r j"])
    fix j assume j: "j < N"
    have "eqm p (u' * A' r j) (u' * (u * A pr j))"
      by (rule eqm_mult[OF eqm_refl rowr[OF j]])
    moreover have "eqm p ((u * u') * A pr j) (1 * A pr j)"
      by (rule eqm_mult[OF unit eqm_refl])
    ultimately show "eqm p (A pr j) (u' * A' r j)"
      by (simp add: eqm_def mult.assoc mult.commute mult.left_commute)
  next
    show "eqm p (\<Sum>j<N. u' * A' r j * x j) 0" by (rule eqm_sum_zero_scaled[OF kr])
  qed
  have other: "eqm p (\<Sum>j<N. A (if i = pr then r else i) j * x j) 0"
    if i: "i < n" "i \<noteq> r" for i
  proof -
    let ?row = "A (if i = pr then r else i)"
    have ki: "eqm p (\<Sum>j<N. A' i j * x j) 0" using ker i by (simp add: in_kernel_def)
    have "eqm p (\<Sum>j<N. ?row j * x j) (\<Sum>j<N. (A' i j + m i * A' r j) * x j)"
    proof (rule eqm_sum)
      fix j assume "j \<in> {..<N}"
      then have j: "j < N" by simp
      have "eqm p (A' i j + m i * A' r j) (?row j - m i * A' r j + m i * A' r j)"
        by (rule eqm_add[OF rows[OF i j] eqm_refl])
      then have "eqm p (?row j) (A' i j + m i * A' r j)" by (simp add: eqm_def)
      then show "eqm p (?row j * x j) ((A' i j + m i * A' r j) * x j)"
        by (rule eqm_mult[OF _ eqm_refl])
    qed
    moreover have "(\<Sum>j<N. (A' i j + m i * A' r j) * x j) =
        (\<Sum>j<N. A' i j * x j) + (\<Sum>j<N. (m i * A' r j) * x j)"
      by (simp add: distrib_right sum.distrib)
    moreover have "eqm p ((\<Sum>j<N. A' i j * x j) + (\<Sum>j<N. (m i * A' r j) * x j)) (0 + 0)"
      by (rule eqm_add[OF ki eqm_sum_zero_scaled[OF kr]])
    ultimately show ?thesis using eqm_trans by fastforce
  qed
  show ?thesis
    unfolding in_kernel_def
  proof (intro allI impI)
    fix i assume i: "i < n"
    show "eqm p (\<Sum>j<N. A i j * x j) 0"
    proof (cases "i = pr")
      case True
      with row_pr show ?thesis by simp
    next
      case not_pr: False
      show ?thesis
      proof (cases "i = r")
        case True
        have "pr \<noteq> r" using not_pr True by simp
        from other[OF pr(2) this] True show ?thesis by simp
      next
        case False
        from other[OF i False] not_pr show ?thesis by simp
      qed
    qed
  qed
qed

lemma echelon_start: "echelon p n A 0 [] 0"
  by (simp add: echelon_def)

lemma echelon_skip:
  assumes "echelon p n A r pivs c" and "\<And>i. i < n \<Longrightarrow> r \<le> i \<Longrightarrow> eqm p (A i c) 0"
  shows "echelon p n A r pivs (Suc c)"
  using assms unfolding echelon_def by (auto simp: less_Suc_eq)

lemma eqm_zero_mult: "eqm p a 0 \<Longrightarrow> eqm p (u * a) 0"
  using eqm_mult[of p u u a 0] by simp

lemma eqm_diff_zero: "eqm p a (b - m * z) \<Longrightarrow> eqm p z 0 \<Longrightarrow> eqm p a b"
proof -
  assume a: "eqm p a (b - m * z)" and z: "eqm p z 0"
  have "eqm p (b - m * z) (b - m * 0)"
    by (rule eqm_diff[OF eqm_refl eqm_mult[OF eqm_refl z]])
  with a show ?thesis using eqm_trans by fastforce
qed

lemma echelon_pivot:
  assumes ech: "echelon p n A r pivs c" and step: "pivot_rel p n N r c A A'" and cN: "c < N"
  shows "echelon p n A' (Suc r) (pivs @ [c]) (Suc c)"
proof -
  from step obtain pr u u' m where
    pr: "r \<le> pr" "pr < n"
    and rowr: "\<And>j. j < N \<Longrightarrow> eqm p (A' r j) (u * A pr j)"
    and piv1: "eqm p (A' r c) 1"
    and colc: "\<And>i. i < n \<Longrightarrow> i \<noteq> r \<Longrightarrow> eqm p (A' i c) 0"
    and rows: "\<And>i j. i < n \<Longrightarrow> i \<noteq> r \<Longrightarrow> j < N \<Longrightarrow>
        eqm p (A' i j) (A (if i = pr then r else i) j - m i * A' r j)"
    unfolding pivot_rel_def by blast
  from ech have len: "length pivs = r" and rn: "r \<le> n" and srt: "sorted_wrt (<) pivs"
    and below: "\<And>q. q \<in> set pivs \<Longrightarrow> q < c"
    and one: "\<And>i. i < r \<Longrightarrow> eqm p (A i (pivs ! i)) 1"
    and zero: "\<And>i i'. i < r \<Longrightarrow> i' < n \<Longrightarrow> i' \<noteq> i \<Longrightarrow> eqm p (A i' (pivs ! i)) 0"
    and low: "\<And>i j. i < n \<Longrightarrow> r \<le> i \<Longrightarrow> j < c \<Longrightarrow> eqm p (A i j) 0"
    and lead: "\<And>i j. i < r \<Longrightarrow> j < pivs ! i \<Longrightarrow> eqm p (A i j) 0"
    unfolding echelon_def by auto
  have r_lt: "r < n" using pr by simp
  have pq: "pivs ! i < c" if "i < r" for i using below[of "pivs ! i"] that len by simp
  have F1: "eqm p (A' r j) 0" if "j < c" for j
  proof -
    have "j < N" using that cN by simp
    from rowr[OF this] eqm_zero_mult[OF low[OF pr(2) pr(1) that], of u]
    show ?thesis using eqm_trans by blast
  qed
  have F2: "eqm p (A' i j) (A (if i = pr then r else i) j)" if "i < n" "i \<noteq> r" "j < c" for i j
  proof -
    have "j < N" using that cN by simp
    from eqm_diff_zero[OF rows[OF that(1,2) this] F1[OF that(3)]] show ?thesis .
  qed
  have new_one: "eqm p (A' i ((pivs @ [c]) ! i)) 1" if "i < Suc r" for i
  proof (cases "i < r")
    case True
    then have "i \<noteq> pr" "i \<noteq> r" "i < n" using pr r_lt by simp_all
    from F2[OF this(3,2) pq[OF True]] this(1)
    have "eqm p (A' i (pivs ! i)) (A i (pivs ! i))" by simp
    then have "eqm p (A' i (pivs ! i)) 1" using one[OF True] eqm_trans by blast
    then show ?thesis using True len by (simp add: nth_append)
  next
    case False
    with that have "i = r" by simp
    then show ?thesis using piv1 len by (simp add: nth_append)
  qed
  have new_zero: "eqm p (A' i' ((pivs @ [c]) ! i)) 0"
    if "i < Suc r" "i' < n" "i' \<noteq> i" for i i'
  proof (cases "i < r")
    case True
    then have q: "(pivs @ [c]) ! i = pivs ! i" using len by (simp add: nth_append)
    show ?thesis
    proof (cases "i' = r")
      case True
      then show ?thesis using F1[OF pq[OF \<open>i < r\<close>]] q by simp
    next
      case False
      let ?src = "if i' = pr then r else i'"
      have src: "?src < n" "?src \<noteq> i" using that True r_lt by auto
      from F2[OF that(2) False pq[OF True]] zero[OF True src]
      have "eqm p (A' i' (pivs ! i)) 0" using eqm_trans by blast
      then show ?thesis using q by simp
    qed
  next
    case False
    with that have "i = r" by simp
    then show ?thesis using colc[OF that(2)] that(3) len by (simp add: nth_append)
  qed
  have new_low: "eqm p (A' i j) 0" if "i < n" "Suc r \<le> i" "j < Suc c" for i j
  proof (cases "j < c")
    case True
    let ?src = "if i = pr then r else i"
    have src: "?src < n" "r \<le> ?src" using that r_lt by auto
    have "i \<noteq> r" using that by simp
    from F2[OF that(1) this True] low[OF src True]
    show ?thesis using eqm_trans by blast
  next
    case False
    with that have "j = c" by simp
    then show ?thesis using colc[OF that(1)] that(2) by simp
  qed
  have new_lead: "eqm p (A' i j) 0" if "i < Suc r" "j < (pivs @ [c]) ! i" for i j
  proof (cases "i < r")
    case True
    then have q: "(pivs @ [c]) ! i = pivs ! i" using len by (simp add: nth_append)
    have i: "i \<noteq> pr" "i \<noteq> r" "i < n" using True pr r_lt by simp_all
    have jc: "j < c" using that(2) q pq[OF True] by simp
    from F2[OF i(3,2) jc] i(1) have "eqm p (A' i j) (A i j)" by simp
    moreover have "eqm p (A i j) 0" using lead[OF True] that(2) q by simp
    ultimately show ?thesis using eqm_trans by blast
  next
    case False
    with that(1) have "i = r" by simp
    then show ?thesis using that(2) F1 len by (simp add: nth_append)
  qed
  have "sorted_wrt (<) (pivs @ [c])" using srt below by (simp add: sorted_wrt_append)
  moreover have "\<forall>q\<in>set (pivs @ [c]). q < Suc c" using below by (auto simp: less_Suc_eq)
  ultimately show ?thesis
    unfolding echelon_def using len r_lt new_one new_zero new_low new_lead
    by (intro conjI allI impI) simp_all
qed

section \<open>The kernel of a reduced augmented matrix\<close>

lemma sum_pick:
  fixes f :: "nat \<Rightarrow> int"
  shows "j0 < N \<Longrightarrow> (\<Sum>j<N. f j * (if j = j0 then 1 else 0)) = f j0"
proof -
  assume "j0 < N"
  have "(\<Sum>j<N. f j * (if j = j0 then 1 else 0)) = (\<Sum>j\<in>{..<N}. if j0 = j then f j else 0)"
    by (rule sum.cong) auto
  also have "\<dots> = f j0" using \<open>j0 < N\<close> by simp
  finally show ?thesis .
qed

lemma sum_first_block:
  fixes f g :: "nat \<Rightarrow> int"
  shows "m \<le> N \<Longrightarrow> (\<Sum>j<N. f j * (if j < m then g j else 0)) = (\<Sum>j<m. f j * g j)"
proof -
  assume "m \<le> N"
  have "(\<Sum>j<m. f j * g j) = (\<Sum>j<m. f j * (if j < m then g j else 0))"
    by (rule sum.cong) auto
  also have "\<dots> = (\<Sum>j<N. f j * (if j < m then g j else 0))"
    by (rule sum.mono_neutral_left) (use \<open>m \<le> N\<close> in auto)
  finally show ?thesis by simp
qed

lemma sum_delta_row:
  fixes g :: "nat \<Rightarrow> int"
  shows "(\<Sum>j<m. (if i = j then 1 else 0) * g j) = (if i < m then g i else 0)"
proof -
  have "(\<Sum>j<m. (if i = j then 1 else 0) * g j) = (\<Sum>j\<in>{..<m}. if i = j then g j else 0)"
    by (rule sum.cong) auto
  also have "\<dots> = (if i < m then g i else 0)" by simp
  finally show ?thesis .
qed

lemma sum_split_block:
  fixes f :: "nat \<Rightarrow> int"
  shows "(\<Sum>j<k + n. f j) = (\<Sum>j<k. f j) + (\<Sum>t<n. f (k + t))"
  by (induction n) (simp_all add: add.assoc)

lemma probe_row:
  assumes unitcols: "\<And>j. j < m \<Longrightarrow> eqm p (R i j) (if i = j then 1 else 0)"
    and m: "m \<le> N" and j0: "j0 < N" and q: "q < N"
  shows "eqm p (\<Sum>j<N. R i j * probe R m j0 q \<rho> j)
           (R i j0 - (if i < m then R i j0 else 0) - R i q * \<rho>)"
proof -
  have expand: "(\<Sum>j<N. R i j * probe R m j0 q \<rho> j) =
      (\<Sum>j<N. R i j * (if j = j0 then 1 else 0))
      - (\<Sum>j<N. R i j * (if j < m then R j j0 else 0))
      - (\<Sum>j<N. R i j * (if j = q then 1 else 0)) * \<rho>"
    unfolding probe_def by (simp add: right_diff_distrib sum_subtractf sum_distrib_right mult.assoc)
  have "eqm p (\<Sum>j<m. R i j * R j j0) (\<Sum>j<m. (if i = j then 1 else 0) * R j j0)"
    by (rule eqm_sum) (simp add: eqm_mult unitcols)
  then have mid: "eqm p (\<Sum>j<m. R i j * R j j0) (if i < m then R i j0 else 0)"
    by (simp only: sum_delta_row)
  show ?thesis
    unfolding expand sum_pick[OF j0] sum_pick[OF q] sum_first_block[OF m]
    by (intro eqm_diff eqm_refl mid)
qed

lemma augmented_row:
  assumes aug: "augmented p n k A0 V" and ker: "in_kernel p n (k + n) A0 x" and t: "t < n"
  shows "eqm p ((\<Sum>j<k. V j t * x j) + x (k + t)) 0"
proof -
  have "eqm p (\<Sum>j<k. A0 t j * x j) (\<Sum>j<k. V j t * x j)"
    by (rule eqm_sum) (use aug t in \<open>simp add: augmented_def eqm_mult\<close>)
  moreover have "eqm p (\<Sum>t'<n. A0 t (k + t') * x (k + t'))
      (\<Sum>t'<n. (if t = t' then 1 else 0) * x (k + t'))"
  proof (rule eqm_sum)
    fix t' assume "t' \<in> {..<n}"
    then have "eqm p (A0 t (k + t')) (if t' = t then 1 else 0)"
      using aug t by (simp add: augmented_def)
    then have "eqm p (A0 t (k + t')) (if t = t' then 1 else 0)"
      by (simp add: eq_commute[of t t'])
    then show "eqm p (A0 t (k + t') * x (k + t')) ((if t = t' then 1 else 0) * x (k + t'))"
      by (rule eqm_mult[OF _ eqm_refl])
  qed
  ultimately have "eqm p ((\<Sum>j<k. A0 t j * x j) + (\<Sum>t'<n. A0 t (k + t') * x (k + t')))
      ((\<Sum>j<k. V j t * x j) + (\<Sum>t'<n. (if t = t' then 1 else 0) * x (k + t')))"
    by (rule eqm_add)
  then have "eqm p ((\<Sum>j<k. A0 t j * x j) + (\<Sum>t'<n. A0 t (k + t') * x (k + t')))
      ((\<Sum>j<k. V j t * x j) + (if t < n then x (k + t) else 0))"
    by (simp only: sum_delta_row[of t "\<lambda>t'. x (k + t')" n])
  moreover have "eqm p (\<Sum>j<k + n. A0 t j * x j) 0"
    using ker t by (simp add: in_kernel_def)
  ultimately show ?thesis
    using t unfolding sum_split_block by (simp add: eqm_def)
qed

lemma kernel_pairing:
  assumes aug: "augmented p n k A0 V" and ker: "in_kernel p n (k + n) A0 x"
    and orth: "\<And>j. j < k \<Longrightarrow> eqm p (\<Sum>t<n. V j t * s t) 0"
  shows "eqm p (\<Sum>t<n. s t * x (k + t)) 0"
proof -
  have "eqm p (\<Sum>t<n. s t * ((\<Sum>j<k. V j t * x j) + x (k + t))) (\<Sum>t<n. s t * 0)"
  proof (rule eqm_sum)
    fix t assume "t \<in> {..<n}"
    then have "eqm p ((\<Sum>j<k. V j t * x j) + x (k + t)) 0"
      using augmented_row[OF aug ker] by simp
    then show "eqm p (s t * ((\<Sum>j<k. V j t * x j) + x (k + t))) (s t * 0)"
      by (rule eqm_mult[OF eqm_refl])
  qed
  then have total: "eqm p (\<Sum>t<n. s t * ((\<Sum>j<k. V j t * x j) + x (k + t))) 0" by simp
  have "(\<Sum>t<n. s t * ((\<Sum>j<k. V j t * x j) + x (k + t))) =
      (\<Sum>t<n. \<Sum>j<k. s t * (V j t * x j)) + (\<Sum>t<n. s t * x (k + t))"
    by (simp add: distrib_left sum.distrib sum_distrib_left)
  also have "(\<Sum>t<n. \<Sum>j<k. s t * (V j t * x j)) = (\<Sum>j<k. \<Sum>t<n. s t * (V j t * x j))"
    by (rule sum.swap)
  also have "\<dots> = (\<Sum>j<k. x j * (\<Sum>t<n. V j t * s t))"
    by (simp add: sum_distrib_left mult_ac)
  finally have split: "(\<Sum>t<n. s t * ((\<Sum>j<k. V j t * x j) + x (k + t))) =
      (\<Sum>j<k. x j * (\<Sum>t<n. V j t * s t)) + (\<Sum>t<n. s t * x (k + t))" .
  have "eqm p (\<Sum>j<k. x j * (\<Sum>t<n. V j t * s t)) (\<Sum>j<k. x j * 0)"
  proof (rule eqm_sum)
    fix j assume "j \<in> {..<k}"
    then have "eqm p (\<Sum>t<n. V j t * s t) 0" using orth by simp
    then show "eqm p (x j * (\<Sum>t<n. V j t * s t)) (x j * 0)"
      by (rule eqm_mult[OF eqm_refl])
  qed
  then have zero: "eqm p (\<Sum>j<k. x j * (\<Sum>t<n. V j t * s t)) 0" by simp
  have "eqm p ((\<Sum>j<k. x j * (\<Sum>t<n. V j t * s t)) + (\<Sum>t<n. s t * x (k + t)))
      (0 + (\<Sum>t<n. s t * x (k + t)))"
    by (rule eqm_add[OF zero eqm_refl])
  with total split show ?thesis by (simp add: eqm_def)
qed

lemma sorted_nth_ge:
  "sorted_wrt (<) (pivs :: nat list) \<Longrightarrow> i < length pivs \<Longrightarrow> i \<le> pivs ! i"
proof (induction i)
  case 0
  then show ?case by simp
next
  case (Suc i)
  then have "pivs ! i < pivs ! Suc i" by (simp add: sorted_wrt_nth_less)
  moreover have "i \<le> pivs ! i" using Suc by simp
  ultimately show ?case by simp
qed

lemma echelon_unit_columns:
  assumes ech: "echelon p n R r pivs c"
    and pre: "\<And>j. j < m \<Longrightarrow> j < r \<and> pivs ! j = j"
    and i: "i < n" and j: "j < m"
  shows "eqm p (R i j) (if i = j then 1 else 0)"
proof -
  from pre[OF j] have jr: "j < r" and pj: "pivs ! j = j" by simp_all
  from ech jr have "eqm p (R j (pivs ! j)) 1" by (simp add: echelon_def)
  moreover from ech jr i have "i \<noteq> j \<Longrightarrow> eqm p (R i (pivs ! j)) 0"
    unfolding echelon_def by blast
  ultimately show ?thesis using pj by auto
qed

lemma not_eqm_one_zero: "1 < p \<Longrightarrow> \<not> eqm p 1 0"
  by (simp add: eqm_def)

lemma forced_pivots:
  assumes p1: "1 < p"
    and ech: "echelon p n R r pivs c" and fin: "c = k + n \<or> r = n"
    and kerinc: "\<And>x. in_kernel p n (k + n) R x \<Longrightarrow> in_kernel p n (k + n) A0 x"
    and aug: "augmented p n k A0 V"
    and indep: "\<And>x j. (\<And>t. t < n \<Longrightarrow> eqm p (\<Sum>j<k. V j t * x j) 0) \<Longrightarrow> j < k \<Longrightarrow> eqm p (x j) 0"
  shows "c0 < k \<Longrightarrow> c0 < r \<and> pivs ! c0 = c0"
proof (induction c0 rule: less_induct)
  case (less c0)
  have pre: "\<And>j. j < c0 \<Longrightarrow> j < r \<and> pivs ! j = j" using less by simp
  from ech have len: "length pivs = r" and srt: "sorted_wrt (<) pivs"
    and low: "\<And>i j. i < n \<Longrightarrow> r \<le> i \<Longrightarrow> j < c \<Longrightarrow> eqm p (R i j) 0"
    and lead: "\<And>i j. i < r \<Longrightarrow> j < pivs ! i \<Longrightarrow> eqm p (R i j) 0"
    unfolding echelon_def by auto
  show ?case
  proof (rule ccontr)
    assume neg: "\<not> (c0 < r \<and> pivs ! c0 = c0)"
    let ?x = "probe R c0 c0 c0 0"
    have c0N: "c0 < k + n" using less.prems by simp
    have colzero: "eqm p (R i c0) 0" if i: "i < n" "c0 \<le> i" for i
    proof (cases "i < r")
      case True
      have "i \<le> pivs ! i" using sorted_nth_ge[OF srt] True len by simp
      moreover have "pivs ! c0 \<noteq> c0" if "i = c0" using neg True that by simp
      ultimately have "c0 < pivs ! i" using i(2) by (cases "i = c0") auto
      then show ?thesis using lead[OF True] by simp
    next
      case False
      then have "c = k + n" using fin i(1) by auto
      then show ?thesis using low[OF i(1)] False c0N by simp
    qed
    have "in_kernel p n (k + n) R ?x"
      unfolding in_kernel_def
    proof (intro allI impI)
      fix i assume i: "i < n"
      have row: "eqm p (\<Sum>j<k + n. R i j * ?x j)
          (R i c0 - (if i < c0 then R i c0 else 0) - R i c0 * 0)"
        by (rule probe_row) (use echelon_unit_columns[OF ech pre i] c0N in auto)
      show "eqm p (\<Sum>j<k + n. R i j * ?x j) 0"
      proof (cases "i < c0")
        case True
        with row show ?thesis by simp
      next
        case False
        then have "eqm p (R i c0) 0" using colzero[OF i] by simp
        with row False show ?thesis using eqm_trans by fastforce
      qed
    qed
    then have ker0: "in_kernel p n (k + n) A0 ?x" by (rule kerinc)
    have "eqm p (\<Sum>j<k. V j t * ?x j) 0" if t: "t < n" for t
    proof -
      have "?x (k + t) = 0" using less.prems by (simp add: probe_def)
      with augmented_row[OF aug ker0 t] show ?thesis by simp
    qed
    then have "eqm p (?x c0) 0" using indep less.prems by blast
    moreover have "?x c0 = 1" by (simp add: probe_def)
    ultimately show False using not_eqm_one_zero[OF p1] by simp
  qed
qed

lemma full_rank:
  assumes p1: "1 < p"
    and ech: "echelon p n R r pivs c" and fin: "c = k + n \<or> r = n"
    and kerinc: "\<And>x. in_kernel p n (k + n) R x \<Longrightarrow> in_kernel p n (k + n) A0 x"
    and aug: "augmented p n k A0 V"
    and pre: "\<And>j. j < k \<Longrightarrow> j < r \<and> pivs ! j = j"
    and orth: "\<And>j. j < k \<Longrightarrow> eqm p (\<Sum>t<n. V j t * s t) 0"
    and kn: "Suc k = n" and nz: "t1 < n" "\<not> eqm p (s t1) 0"
  shows "r = n"
proof (rule ccontr)
  assume neg: "r \<noteq> n"
  from ech have rn: "r \<le> n"
    and low: "\<And>i j. i < n \<Longrightarrow> r \<le> i \<Longrightarrow> j < c \<Longrightarrow> eqm p (R i j) 0"
    unfolding echelon_def by auto
  have rk: "r \<le> k" using neg rn kn by simp
  have c: "c = k + n" using fin neg by simp
  let ?x = "probe R k (k + t1) (k + t1) 0"
  have "in_kernel p n (k + n) R ?x"
    unfolding in_kernel_def
  proof (intro allI impI)
    fix i assume i: "i < n"
    have row: "eqm p (\<Sum>j<k + n. R i j * ?x j)
        (R i (k + t1) - (if i < k then R i (k + t1) else 0) - R i (k + t1) * 0)"
      by (rule probe_row) (use echelon_unit_columns[OF ech pre i] nz(1) in auto)
    show "eqm p (\<Sum>j<k + n. R i j * ?x j) 0"
    proof (cases "i < k")
      case True
      with row show ?thesis by simp
    next
      case False
      then have "eqm p (R i (k + t1)) 0" using low[OF i] rk c nz(1) by simp
      with row False show ?thesis using eqm_trans by fastforce
    qed
  qed
  then have "in_kernel p n (k + n) A0 ?x" by (rule kerinc)
  from kernel_pairing[OF aug this orth]
  have "eqm p (\<Sum>t<n. s t * ?x (k + t)) 0" by simp
  moreover have "(\<Sum>t<n. s t * ?x (k + t)) = (\<Sum>t<n. s t * (if t = t1 then 1 else 0))"
    by (rule sum.cong) (simp_all add: probe_def)
  ultimately have "eqm p (s t1) 0" using sum_pick[OF nz(1), of s] by simp
  with nz(2) show False by simp
qed

lemma last_row_proportional:
  assumes ech: "echelon p n R n pivs c" and cN: "c \<le> k + n"
    and kerinc: "\<And>x. in_kernel p n (k + n) R x \<Longrightarrow> in_kernel p n (k + n) A0 x"
    and aug: "augmented p n k A0 V"
    and pre: "\<And>j. j < k \<Longrightarrow> pivs ! j = j"
    and orth: "\<And>j. j < k \<Longrightarrow> eqm p (\<Sum>t<n. V j t * s t) 0"
    and kn: "Suc k = n"
  shows "\<exists>t1<n. pivs ! k = k + t1 \<and> eqm p (R k (k + t1)) 1 \<and>
      (\<forall>j<k + t1. eqm p (R k j) 0) \<and> (\<forall>t<n. eqm p (s t) (s t1 * R k (k + t)))"
proof -
  from ech have len: "length pivs = n" and srt: "sorted_wrt (<) pivs"
    and below: "\<And>q. q \<in> set pivs \<Longrightarrow> q < c"
    and one: "\<And>i. i < n \<Longrightarrow> eqm p (R i (pivs ! i)) 1"
    and zero: "\<And>i i'. i < n \<Longrightarrow> i' < n \<Longrightarrow> i' \<noteq> i \<Longrightarrow> eqm p (R i' (pivs ! i)) 0"
    and lead: "\<And>i j. i < n \<Longrightarrow> j < pivs ! i \<Longrightarrow> eqm p (R i j) 0"
    unfolding echelon_def by auto
  have kn': "k < n" using kn by simp
  have pre': "\<And>j. j < k \<Longrightarrow> j < n \<and> pivs ! j = j" using pre kn by simp
  let ?q = "pivs ! k"
  have qk: "k \<le> ?q" using sorted_nth_ge[OF srt] len kn' by simp
  have qN: "?q < k + n" using below[of ?q] len kn' cN by simp
  define t1 where "t1 = ?q - k"
  have t1: "t1 < n" "?q = k + t1" using qk qN by (simp_all add: t1_def)
  have scaled: "eqm p (s t) (s t1 * R k (k + t))" if t: "t < n" for t
  proof -
    let ?x = "probe R k (k + t) ?q (R k (k + t))"
    have "in_kernel p n (k + n) R ?x"
      unfolding in_kernel_def
    proof (intro allI impI)
      fix i assume i: "i < n"
      have row: "eqm p (\<Sum>j<k + n. R i j * ?x j)
          (R i (k + t) - (if i < k then R i (k + t) else 0) - R i ?q * R k (k + t))"
        by (rule probe_row) (use echelon_unit_columns[OF ech pre' i] t qN in auto)
      show "eqm p (\<Sum>j<k + n. R i j * ?x j) 0"
      proof (cases "i < k")
        case True
        then have "eqm p (R i ?q) 0" using zero[OF kn' i] by simp
        then have "eqm p (R i ?q * R k (k + t)) (0 * R k (k + t))"
          by (rule eqm_mult[OF _ eqm_refl])
        then have "eqm p (R i (k + t) - R i (k + t) - R i ?q * R k (k + t))
            (R i (k + t) - R i (k + t) - 0 * R k (k + t))"
          by (intro eqm_diff eqm_refl)
        with row True show ?thesis using eqm_trans by fastforce
      next
        case False
        then have ik: "i = k" using i kn by simp
        have "eqm p (R k ?q * R k (k + t)) (1 * R k (k + t))"
          by (rule eqm_mult[OF one[OF kn'] eqm_refl])
        then have "eqm p (R k (k + t) - 0 - R k ?q * R k (k + t))
            (R k (k + t) - 0 - 1 * R k (k + t))"
          by (intro eqm_diff eqm_refl)
        with row ik show ?thesis using eqm_trans by fastforce
      qed
    qed
    then have "in_kernel p n (k + n) A0 ?x" by (rule kerinc)
    from kernel_pairing[OF aug this orth]
    have pair: "eqm p (\<Sum>t'<n. s t' * ?x (k + t')) 0" by simp
    have "(\<Sum>t'<n. s t' * ?x (k + t')) =
        (\<Sum>t'<n. s t' * (if t' = t then 1 else 0))
        - (\<Sum>t'<n. s t' * (if t' = t1 then 1 else 0)) * R k (k + t)"
      unfolding sum_distrib_right sum_subtractf[symmetric]
      by (rule sum.cong) (auto simp: probe_def t1(2) algebra_simps)
    then have "(\<Sum>t'<n. s t' * ?x (k + t')) = s t - s t1 * R k (k + t)"
      by (simp only: sum_pick[OF t] sum_pick[OF t1(1)])
    with pair have "eqm p (s t - s t1 * R k (k + t)) 0" by simp
    then have "eqm p (s t - s t1 * R k (k + t) + s t1 * R k (k + t)) (0 + s t1 * R k (k + t))"
      by (rule eqm_add[OF _ eqm_refl])
    then show ?thesis by simp
  qed
  have "eqm p (R k (k + t1)) 1" using one[OF kn'] t1(2) by simp
  moreover have "\<forall>j<k + t1. eqm p (R k j) 0" using lead[OF kn'] t1(2) by simp
  ultimately show ?thesis using t1 scaled by blast
qed

section \<open>The row reduction mod 3 keeps its invariants\<close>

lemma dims_is_matrix: "is_matrix M \<Longrightarrow> dims (length M) (ncols M) M"
  by (auto simp: is_matrix_def dims_def list_all_length)

lemma dims_ncols: "dims n N M \<Longrightarrow> 0 < n \<Longrightarrow> ncols M = N"
  by (cases M) (auto simp: dims_def ncols_def)

lemma row_swap_nth:
  "pr < length M \<Longrightarrow> r < length M \<Longrightarrow> i < length M \<Longrightarrow>
   row_swap pr r M ! i = (if i = r then M ! pr else if i = pr then M ! r else M ! i)"
  by (simp add: row_swap_def nth_list_update)

lemma row_swap_dims: "dims n N M \<Longrightarrow> pr < n \<Longrightarrow> r < n \<Longrightarrow> dims n N (row_swap pr r M)"
  unfolding dims_def by (auto simp: row_swap_def nth_list_update)

lemma eliminate_mod3_length: "length (eliminate_mod3 M r c) = length M"
  by (simp add: eliminate_mod3_def)

lemma eliminate_mod3_row:
  "i < length M \<Longrightarrow>
   eliminate_mod3 M r c ! i =
     (if i \<noteq> r \<and> M ! i ! c \<noteq> 0
      then map2 (\<lambda>x y. mod3 (x - M ! i ! c * y)) (M ! i) (M ! r) else M ! i)"
  by (simp add: eliminate_mod3_def Let_def)

lemma eliminate_mod3_dims:
  assumes "dims n N M" and "r < n"
  shows "dims n N (eliminate_mod3 M r c)"
  using assms unfolding dims_def
  by (auto simp: eliminate_mod3_length eliminate_mod3_row)

lemma eliminate_mod3_entry:
  assumes "dims n N M" and "r < n" and "i < n" and "j < N"
  shows "eliminate_mod3 M r c ! i ! j =
     (if i \<noteq> r \<and> M ! i ! c \<noteq> 0 then mod3 (M ! i ! j - M ! i ! c * M ! r ! j) else M ! i ! j)"
  using assms unfolding dims_def by (auto simp: eliminate_mod3_row)

lemma find_pivot_row_upt_Some:
  "find_pivot_row M c [r..<n] = Some pr \<Longrightarrow> r \<le> pr \<and> pr < n \<and> M ! pr ! c \<noteq> 0"
  using find_pivot_row_Some[of M c "[r..<n]" pr] by auto

lemma find_pivot_row_None:
  "find_pivot_row M c ris = None \<Longrightarrow> i \<in> set ris \<Longrightarrow> M ! i ! c = 0"
  by (induction ris) (auto split: if_splits)

lemma find_pivot_row_first:
  "\<forall>i\<in>set ris. M ! i ! c = 0 \<Longrightarrow> M ! r ! c \<noteq> 0 \<Longrightarrow>
   find_pivot_row M c (ris @ r # rest) = Some r"
  by (induction ris) auto

lemma range3_cases: "0 \<le> (x::int) \<Longrightarrow> x < 3 \<Longrightarrow> x = 0 \<or> x = 1 \<or> x = 2"
  by arith

lemma normalize_pivot_row_result:
  assumes d: "dims n N M1" and rg: "range3 n N M1" and r: "r < n" and c: "c < N"
    and nz: "M1 ! r ! c \<noteq> 0"
  shows "\<exists>M2 u. normalize_pivot_row M1 r c = Inr M2 \<and> dims n N M2 \<and> range3 n N M2 \<and>
      (u = 1 \<or> u = 2) \<and> (\<forall>i<n. i \<noteq> r \<longrightarrow> M2 ! i = M1 ! i) \<and>
      (\<forall>j<N. M2 ! r ! j = (u * M1 ! r ! j) mod 3) \<and> M2 ! r ! c = 1"
proof -
  from d r have len: "length M1 = n" and lr: "length (M1 ! r) = N" by (simp_all add: dims_def)
  from rg r c have "0 \<le> M1 ! r ! c" "M1 ! r ! c < 3" by (simp_all add: range3_def)
  with nz have pv: "M1 ! r ! c = 1 \<or> M1 ! r ! c = 2" by arith
  show ?thesis
  proof (cases "M1 ! r ! c = 1")
    case True
    have "normalize_pivot_row M1 r c = Inr M1" using True by (simp add: normalize_pivot_row_def)
    moreover have "\<forall>j<N. M1 ! r ! j = (1 * M1 ! r ! j) mod 3"
      using rg r by (simp add: range3_def)
    ultimately show ?thesis using d rg True by blast
  next
    case False
    with pv have two: "M1 ! r ! c = 2" by simp
    let ?M2 = "M1[r := map (\<lambda>x. mod3 (2 * x)) (M1 ! r)]"
    have run: "normalize_pivot_row M1 r c = Inr ?M2"
      using two by (simp add: normalize_pivot_row_def pow_inv3_def mod3_def)
    have d2: "dims n N ?M2" using d r unfolding dims_def by (auto simp: nth_list_update)
    have rowr: "?M2 ! r ! j = (2 * M1 ! r ! j) mod 3" if "j < N" for j
      using that len lr r by (simp add: mod3_def)
    have other: "?M2 ! i = M1 ! i" if "i \<noteq> r" for i using that by simp
    have rg2: "range3 n N ?M2"
      unfolding range3_def
    proof (intro allI impI)
      fix i j assume ij: "i < n" "j < N"
      show "0 \<le> ?M2 ! i ! j \<and> ?M2 ! i ! j < 3"
      proof (cases "i = r")
        case True
        then show ?thesis using rowr[OF ij(2)] by simp
      next
        case False
        then show ?thesis using rg ij other by (simp add: range3_def)
      qed
    qed
    have "?M2 ! r ! c = 1" using rowr[OF c] two by simp
    with run d2 rg2 rowr other show ?thesis by blast
  qed
qed

lemma eqm3_mod: "eqm 3 (x mod 3) x"
  by (simp add: eqm_def)

lemma ternary_step:
  assumes d: "dims n N M" and rg: "range3 n N M" and c: "c < N"
    and found: "find_pivot_row M c [r..<n] = Some pr"
  shows "\<exists>M'. normalize_pivot_row (if pr \<noteq> r then row_swap pr r M else M) r c = Inr M' \<and>
      dims n N (eliminate_mod3 M' r c) \<and> range3 n N (eliminate_mod3 M' r c) \<and>
      pivot_rel 3 n N r c (fn M) (fn (eliminate_mod3 M' r c))"
proof -
  from find_pivot_row_upt_Some[OF found] have pr: "r \<le> pr" "pr < n" and nz: "M ! pr ! c \<noteq> 0"
    by simp_all
  have r: "r < n" using pr by simp
  from d have len: "length M = n" by (simp add: dims_def)
  let ?M1 = "if pr \<noteq> r then row_swap pr r M else M"
  have rows1: "?M1 ! i = (if i = r then M ! pr else if i = pr then M ! r else M ! i)"
    if "i < n" for i
    using that pr r len by (auto simp: row_swap_nth)
  have d1: "dims n N ?M1" using d pr r by (simp add: row_swap_dims)
  have rg1: "range3 n N ?M1"
    unfolding range3_def using rg rows1 pr r by (auto simp: range3_def)
  have nz1: "?M1 ! r ! c \<noteq> 0" using rows1[OF r] nz by simp
  from normalize_pivot_row_result[OF d1 rg1 r c nz1] obtain M2 u where
    run: "normalize_pivot_row ?M1 r c = Inr M2"
    and d2: "dims n N M2" and rg2: "range3 n N M2" and u: "u = 1 \<or> u = 2"
    and other2: "\<And>i. i < n \<Longrightarrow> i \<noteq> r \<Longrightarrow> M2 ! i = ?M1 ! i"
    and rowr2: "\<And>j. j < N \<Longrightarrow> M2 ! r ! j = (u * ?M1 ! r ! j) mod 3"
    and one2: "M2 ! r ! c = 1"
    by blast
  let ?M3 = "eliminate_mod3 M2 r c"
  have d3: "dims n N ?M3" using eliminate_mod3_dims[OF d2 r] .
  have e3: "?M3 ! i ! j =
      (if i \<noteq> r \<and> M2 ! i ! c \<noteq> 0 then mod3 (M2 ! i ! j - M2 ! i ! c * M2 ! r ! j)
       else M2 ! i ! j)" if "i < n" "j < N" for i j
    using eliminate_mod3_entry[OF d2 r that] .
  have rg3: "range3 n N ?M3"
    unfolding range3_def
  proof (intro allI impI)
    fix i j assume ij: "i < n" "j < N"
    from rg2 ij have "0 \<le> M2 ! i ! j \<and> M2 ! i ! j < 3" by (simp add: range3_def)
    then show "0 \<le> ?M3 ! i ! j \<and> ?M3 ! i ! j < 3"
      unfolding e3[OF ij] by (simp add: mod3_def)
  qed
  have uu: "eqm 3 (u * u) 1" using u by (auto simp: eqm_def)
  have rowr: "eqm 3 (fn ?M3 r j) (u * fn M pr j)" if j: "j < N" for j
  proof -
    have "fn ?M3 r j = (u * M ! pr ! j) mod 3"
      using e3[OF r j] rowr2[OF j] rows1[OF r] by (simp add: fn_def)
    then show ?thesis by (simp add: fn_def eqm3_mod)
  qed
  have piv: "eqm 3 (fn ?M3 r c) 1" using e3[OF r c] one2 by (simp add: fn_def)
  have colc: "eqm 3 (fn ?M3 i c) 0" if i: "i < n" "i \<noteq> r" for i
    using e3[OF i(1) c] i(2) one2 by (simp add: fn_def mod3_def)
  have rest: "eqm 3 (fn ?M3 i j) (fn M (if i = pr then r else i) j - M2 ! i ! c * fn ?M3 r j)"
    if i: "i < n" "i \<noteq> r" and j: "j < N" for i j
  proof -
    have src: "M2 ! i ! j = fn M (if i = pr then r else i) j"
      using other2[OF i] rows1[OF i(1)] i(2) by (simp add: fn_def)
    have r3: "fn ?M3 r j = M2 ! r ! j" using e3[OF r j] by (simp add: fn_def)
    show ?thesis
    proof (cases "M2 ! i ! c = 0")
      case True
      then show ?thesis using e3[OF i(1) j] src by (simp add: fn_def)
    next
      case False
      then have "fn ?M3 i j = (M2 ! i ! j - M2 ! i ! c * M2 ! r ! j) mod 3"
        using e3[OF i(1) j] i(2) by (simp add: fn_def mod3_def)
      then show ?thesis using src r3 by (simp add: eqm3_mod)
    qed
  qed
  have "pivot_rel 3 n N r c (fn M) (fn ?M3)"
    unfolding pivot_rel_def
    using pr uu rowr piv colc rest
    by (intro exI[of _ pr] exI[of _ u] exI[of _ "\<lambda>i. M2 ! i ! c"]) simp
  with run d3 rg3 show ?thesis by blast
qed

lemma rref_mod3_loop_inv:
  "tern_inv n N A0 M r pivs c \<Longrightarrow>
   \<exists>R pivs' r' c'. rref_mod3_loop n [c..<N] M r pivs = Inr (R, pivs') \<and>
     tern_inv n N A0 R r' pivs' c' \<and> (c' = N \<or> r' = n)"
proof (induction "N - c" arbitrary: c M r pivs)
  case 0
  then have "c = N" by (simp add: tern_inv_def)
  with 0 show ?case by auto
next
  case (Suc d)
  then have c: "c < N" and d: "d = N - Suc c" by simp_all
  from Suc.prems have dm: "dims n N M" and rg: "range3 n N M"
    and ech: "echelon 3 n (fn M) r pivs c"
    and ker: "\<And>x. in_kernel 3 n N (fn M) x \<Longrightarrow> in_kernel 3 n N A0 x"
    by (simp_all add: tern_inv_def)
  have cols: "[c..<N] = c # [Suc c..<N]" using c by (simp add: upt_conv_Cons)
  show ?case
  proof (cases "find_pivot_row M c [r..<n]")
    case None
    have "echelon 3 n (fn M) r pivs (Suc c)"
    proof (rule echelon_skip[OF ech])
      fix i assume "i < n" "r \<le> i"
      then have "M ! i ! c = 0" using find_pivot_row_None[OF None, of i] by simp
      then show "eqm 3 (fn M i c) 0" by (simp add: fn_def)
    qed
    then have "tern_inv n N A0 M r pivs (Suc c)"
      using dm rg ker c by (simp add: tern_inv_def)
    from Suc.hyps(1)[OF d this] None cols show ?thesis by simp
  next
    case (Some pr)
    from ternary_step[OF dm rg c Some] obtain M' where
      norm: "normalize_pivot_row (if pr \<noteq> r then row_swap pr r M else M) r c = Inr M'"
      and d3: "dims n N (eliminate_mod3 M' r c)" and rg3: "range3 n N (eliminate_mod3 M' r c)"
      and step: "pivot_rel 3 n N r c (fn M) (fn (eliminate_mod3 M' r c))"
      by blast
    let ?M3 = "eliminate_mod3 M' r c"
    have ech3: "echelon 3 n (fn ?M3) (Suc r) (pivs @ [c]) (Suc c)"
      using echelon_pivot[OF ech step c] .
    have ker3: "in_kernel 3 n N A0 x" if "in_kernel 3 n N (fn ?M3) x" for x
      using ker[OF kernel_step[OF step that]] .
    have inv3: "tern_inv n N A0 ?M3 (Suc r) (pivs @ [c]) (Suc c)"
      using d3 rg3 ech3 ker3 c by (simp add: tern_inv_def)
    show ?thesis
    proof (cases "r + 1 = n")
      case True
      then have "rref_mod3_loop n [c..<N] M r pivs = Inr (?M3, pivs @ [c])"
        using cols Some norm by simp
      with inv3 True show ?thesis by auto
    next
      case False
      then have "rref_mod3_loop n [c..<N] M r pivs =
          rref_mod3_loop n [Suc c..<N] ?M3 (Suc r) (pivs @ [c])"
        using cols Some norm by simp
      with Suc.hyps(1)[OF d inv3] show ?thesis by simp
    qed
  qed
qed

lemma range3_exact:
  assumes "range3 n N R" and "i < n" and "j < N"
  shows "eqm 3 (fn R i j) 0 \<Longrightarrow> R ! i ! j = 0" and "eqm 3 (fn R i j) 1 \<Longrightarrow> R ! i ! j = 1"
proof -
  from assms have b: "0 \<le> R ! i ! j" "R ! i ! j < 3" by (simp_all add: range3_def)
  show "eqm 3 (fn R i j) 0 \<Longrightarrow> R ! i ! j = 0" using b by (simp add: eqm_def fn_def)
  show "eqm 3 (fn R i j) 1 \<Longrightarrow> R ! i ! j = 1" using b by (simp add: eqm_def fn_def)
qed

lemma find_pivot_row_all_zero:
  "(\<And>i. i \<in> set ris \<Longrightarrow> M ! i ! c = 0) \<Longrightarrow> find_pivot_row M c ris = None"
  by (induction ris) auto

lemma eliminate_mod3_fixed:
  assumes "\<And>i. i < length M \<Longrightarrow> i \<noteq> r \<Longrightarrow> M ! i ! c = 0"
  shows "eliminate_mod3 M r c = M"
proof (rule nth_equalityI)
  show "length (eliminate_mod3 M r c) = length M" by (rule eliminate_mod3_length)
next
  fix i assume "i < length (eliminate_mod3 M r c)"
  then have i: "i < length M" by (simp add: eliminate_mod3_length)
  show "eliminate_mod3 M r c ! i = M ! i"
  proof (cases "i = r")
    case True
    then show ?thesis using eliminate_mod3_row[OF i, of r c] by simp
  next
    case False
    then show ?thesis using assms[OF i] eliminate_mod3_row[OF i, of r c] by simp
  qed
qed

lemma rref_mod3_loop_fixed:
  assumes d: "dims n N R" and rg: "range3 n N R"
    and ech: "echelon 3 n (fn R) rf pivs cf" and fin: "cf = N \<or> rf = n" and cfN: "cf \<le> N"
  shows "c \<le> N \<Longrightarrow> r \<le> rf \<Longrightarrow> (\<forall>i<r. pivs ! i < c) \<Longrightarrow>
    (\<forall>i. r \<le> i \<and> i < rf \<longrightarrow> c \<le> pivs ! i) \<Longrightarrow>
    rref_mod3_loop n [c..<N] R r (take r pivs) = Inr (R, pivs)"
proof (induction "N - c" arbitrary: c r)
  case 0
  from ech have len: "length pivs = rf" and below: "\<And>q. q \<in> set pivs \<Longrightarrow> q < cf"
    unfolding echelon_def by auto
  from 0 have cN: "c = N" by simp
  have "r = rf"
  proof (rule ccontr)
    assume "r \<noteq> rf"
    then have "r < rf" using 0 by simp
    then have "c \<le> pivs ! r" using 0 by simp
    moreover have "pivs ! r < cf" using below[of "pivs ! r"] \<open>r < rf\<close> len by simp
    ultimately show False using cN cfN by simp
  qed
  then show ?case using cN len by simp
next
  case (Suc dd)
  from ech have len: "length pivs = rf" and rfn: "rf \<le> n" and srt: "sorted_wrt (<) pivs"
    and one: "\<And>i. i < rf \<Longrightarrow> eqm 3 (fn R i (pivs ! i)) 1"
    and zero: "\<And>i i'. i < rf \<Longrightarrow> i' < n \<Longrightarrow> i' \<noteq> i \<Longrightarrow> eqm 3 (fn R i' (pivs ! i)) 0"
    and low: "\<And>i j. i < n \<Longrightarrow> rf \<le> i \<Longrightarrow> j < cf \<Longrightarrow> eqm 3 (fn R i j) 0"
    and lead: "\<And>i j. i < rf \<Longrightarrow> j < pivs ! i \<Longrightarrow> eqm 3 (fn R i j) 0"
    unfolding echelon_def by auto
  from d have lenR: "length R = n" by (simp add: dims_def)
  from Suc have c: "c < N" and dd: "dd = N - Suc c" by simp_all
  have cols: "[c..<N] = c # [Suc c..<N]" using c by (simp add: upt_conv_Cons)
  show ?case
  proof (cases "r < rf \<and> pivs ! r = c")
    case True
    then have r: "r < rf" and pr: "pivs ! r = c" by simp_all
    have rn: "r < n" using r rfn by simp
    have piv1: "R ! r ! c = 1" using range3_exact(2)[OF rg rn c] one[OF r] pr by simp
    have col0: "R ! i ! c = 0" if "i < n" "i \<noteq> r" for i
      using range3_exact(1)[OF rg that(1) c] zero[OF r that] pr by simp
    have rows: "[r..<n] = r # [Suc r..<n]" using rn by (simp add: upt_conv_Cons)
    have found: "find_pivot_row R c [r..<n] = Some r" using piv1 rows by simp
    have norm: "normalize_pivot_row R r c = Inr R" using piv1 by (simp add: normalize_pivot_row_def)
    have elim: "eliminate_mod3 R r c = R"
      by (rule eliminate_mod3_fixed) (use col0 lenR in simp)
    have tk: "take r pivs @ [c] = take (Suc r) pivs"
      using r len pr by (simp add: take_Suc_conv_app_nth)
    show ?thesis
    proof (cases "r + 1 = n")
      case True
      then have "Suc r = rf" using r rfn by simp
      then have "take (Suc r) pivs = pivs" using len by simp
      then show ?thesis using cols found norm elim tk True by simp
    next
      case False
      have "rref_mod3_loop n [Suc c..<N] R (Suc r) (take (Suc r) pivs) = Inr (R, pivs)"
      proof (rule Suc.hyps(1)[OF dd])
        show "Suc c \<le> N" using c by simp
        show "Suc r \<le> rf" using r by simp
        show "\<forall>i<Suc r. pivs ! i < Suc c" using Suc.prems(3) pr by (auto simp: less_Suc_eq)
        show "\<forall>i. Suc r \<le> i \<and> i < rf \<longrightarrow> Suc c \<le> pivs ! i"
        proof (intro allI impI)
          fix i assume "Suc r \<le> i \<and> i < rf"
          then have "pivs ! r < pivs ! i" using srt len by (simp add: sorted_wrt_nth_less)
          then show "Suc c \<le> pivs ! i" using pr by simp
        qed
      qed
      then show ?thesis using cols found norm elim tk False by simp
    qed
  next
    case False
    have above: "c < pivs ! i" if i: "r \<le> i" "i < rf" for i
    proof (cases "i = r")
      case True
      then show ?thesis using False i Suc.prems(4) by (auto simp: le_less)
    next
      case neq: False
      then have "pivs ! r < pivs ! i" using i srt len by (simp add: sorted_wrt_nth_less)
      moreover have "c \<le> pivs ! r" using Suc.prems(4) i by simp
      ultimately show ?thesis by simp
    qed
    have zero_col: "R ! i ! c = 0" if "i \<in> set [r..<n]" for i
    proof -
      from that have i: "r \<le> i" "i < n" by simp_all
      show ?thesis
      proof (cases "i < rf")
        case True
        from lead[OF True above[OF i(1) True]] show ?thesis
          using range3_exact(1)[OF rg i(2) c] by simp
      next
        case nf: False
        then have "cf = N" using fin i(2) by auto
        then have "eqm 3 (fn R i c) 0" using low[OF i(2), of c] nf c by simp
        then show ?thesis using range3_exact(1)[OF rg i(2) c] by simp
      qed
    qed
    have none: "find_pivot_row R c [r..<n] = None"
      by (rule find_pivot_row_all_zero) (rule zero_col)
    have "rref_mod3_loop n [Suc c..<N] R r (take r pivs) = Inr (R, pivs)"
    proof (rule Suc.hyps(1)[OF dd _ Suc.prems(2)])
      show "Suc c \<le> N" using c by simp
      show "\<forall>i<r. pivs ! i < Suc c" using Suc.prems(3) by (auto simp: less_Suc_eq)
      show "\<forall>i. r \<le> i \<and> i < rf \<longrightarrow> Suc c \<le> pivs ! i" using above by (simp add: Suc_le_eq)
    qed
    then show ?thesis using cols none by simp
  qed
qed

lemma map_mod3_dims: "dims n N M \<Longrightarrow> dims n N (map (map mod3) M)"
  by (simp add: dims_def)

lemma map_mod3_range: "dims n N M \<Longrightarrow> range3 n N (map (map mod3) M)"
  by (simp add: dims_def range3_def mod3_def)

lemma map_mod3_fixed:
  assumes "dims n N R" and "range3 n N R"
  shows "map (map mod3) R = R"
proof (rule nth_equalityI)
  show "length (map (map mod3) R) = length R" by simp
next
  fix i assume "i < length (map (map mod3) R)"
  then have i: "i < n" using assms(1) by (simp add: dims_def)
  then have li: "length (R ! i) = N" "i < length R" using assms(1) by (simp_all add: dims_def)
  have "map mod3 (R ! i) = R ! i"
  proof (rule nth_equalityI)
    show "length (map mod3 (R ! i)) = length (R ! i)" by simp
  next
    fix j assume "j < length (map mod3 (R ! i))"
    then have j: "j < N" using li by simp
    then show "map mod3 (R ! i) ! j = R ! i ! j"
      using assms(2) i li by (simp add: range3_def mod3_def)
  qed
  then show "map (map mod3) R ! i = R ! i" using li by simp
qed

text \<open>
  Claim C8. The row reduction mod 3 is idempotent: for every matrix \<open>M\<close>, \<open>rref_mod3\<close>
  returns a matrix and a list of pivot columns, and \<open>rref_mod3\<close> applied to that
  matrix returns the same matrix (and the same pivot columns).
\<close>

theorem rref_mod3_idempotent:
  assumes "is_matrix M"
  shows "\<exists>R pivot_cols. rref_mod3 M = Inr (R, pivot_cols) \<and> rref_mod3 R = Inr (R, pivot_cols)"
proof -
  let ?n = "length M" and ?N = "ncols M"
  let ?M0 = "map (map mod3) M"
  have d0: "dims ?n ?N ?M0" using dims_is_matrix[OF assms] by (rule map_mod3_dims)
  have rg0: "range3 ?n ?N ?M0" using dims_is_matrix[OF assms] by (rule map_mod3_range)
  have "tern_inv ?n ?N (fn ?M0) ?M0 0 [] 0"
    using d0 rg0 by (simp add: tern_inv_def echelon_start)
  from rref_mod3_loop_inv[OF this] obtain R pivs r c where
    run: "rref_mod3_loop ?n [0..<?N] ?M0 0 [] = Inr (R, pivs)"
    and inv: "tern_inv ?n ?N (fn ?M0) R r pivs c" and fin: "c = ?N \<or> r = ?n"
    by blast
  from inv have d: "dims ?n ?N R" and rg: "range3 ?n ?N R"
    and ech: "echelon 3 ?n (fn R) r pivs c" and cN: "c \<le> ?N"
    by (simp_all add: tern_inv_def)
  have first: "rref_mod3 M = Inr (R, pivs)" using run by (simp add: rref_mod3_def)
  have lenR: "length R = ?n" using d by (simp add: dims_def)
  have second: "rref_mod3 R = Inr (R, pivs)"
  proof (cases "?n = 0")
    case True
    then have "R = []" using lenR by simp
    moreover have "length pivs = 0" using ech True by (simp add: echelon_def)
    ultimately show ?thesis by (simp add: rref_mod3_def ncols_def)
  next
    case False
    then have nc: "ncols R = ?N" using dims_ncols[OF d] by simp
    have "rref_mod3_loop ?n [0..<?N] R 0 (take 0 pivs) = Inr (R, pivs)"
      by (rule rref_mod3_loop_fixed[OF d rg ech fin cN]) simp_all
    then show ?thesis
      using nc lenR map_mod3_fixed[OF d rg] by (simp add: rref_mod3_def)
  qed
  from first second show ?thesis by blast
qed

theorem rref_mod3_idempotent_witness:
  "is_matrix [[2, 1, 0], [1, 1, 2 :: int]] \<and>
   (\<exists>R pivot_cols. rref_mod3 [[2, 1, 0], [1, 1, 2]] = Inr (R, pivot_cols) \<and>
      rref_mod3 R = Inr (R, pivot_cols))"
proof -
  have m: "is_matrix [[2, 1, 0], [1, 1, 2 :: int]]" by code_simp
  show ?thesis using rref_mod3_idempotent[OF m] m by simp
qed

section \<open>Independent vectors orthogonal to a secret\<close>

lemma list_all_mem: "list_all P xs \<Longrightarrow> x \<in> set xs \<Longrightarrow> P x"
  by (simp add: list_all_iff)

lemma sum_list_map2_nth:
  fixes f :: "'a \<Rightarrow> 'b \<Rightarrow> int"
  assumes "length xs = k" and "length ys = k"
  shows "sum_list (map2 f xs ys) = (\<Sum>j<k. f (xs ! j) (ys ! j))"
proof -
  have "sum_list (map2 f xs ys) = (\<Sum>j = 0..<length (map2 f xs ys). map2 f xs ys ! j)"
    by (rule sum_list_sum_nth)
  also have "\<dots> = (\<Sum>j = 0..<k. f (xs ! j) (ys ! j))"
    using assms by (intro sum.cong) simp_all
  finally show ?thesis by (simp add: atLeast0LessThan)
qed

lemma dot_sum: "length v = n \<Longrightarrow> length s = n \<Longrightarrow> dot v s = (\<Sum>t<n. v ! t * s ! t)"
  unfolding dot_def by (rule sum_list_map2_nth)

lemma lin_comb_sum:
  "length c = k \<Longrightarrow> length vs = k \<Longrightarrow> lin_comb c vs t = (\<Sum>j<k. c ! j * vs ! j ! t)"
  unfolding lin_comb_def by (rule sum_list_map2_nth)

lemma linearly_independent_fun:
  assumes ind: "linearly_independent p n vs" and p: "1 < p" and k: "length vs = k"
    and comb: "\<And>t. t < n \<Longrightarrow> eqm p (\<Sum>j<k. vs ! j ! t * x j) 0" and j: "j < k"
  shows "eqm p (x j) 0"
proof -
  let ?c = "map (\<lambda>j. x j mod p) [0..<k]"
  have len: "length ?c = k" by simp
  have "set ?c \<subseteq> set (map int [0..<nat p])"
  proof
    fix y assume "y \<in> set ?c"
    then obtain i where y: "y = x i mod p" by auto
    have "0 \<le> y" "y < p" using p y by simp_all
    then have y': "y = int (nat y)" "nat y < nat p" by simp_all
    then have "nat y \<in> set [0..<nat p]" by simp
    then have "int (nat y) \<in> int ` set [0..<nat p]" by (rule imageI)
    then show "y \<in> set (map int [0..<nat p])" using y'(1) by simp
  qed
  then have mem: "?c \<in> set (List.n_lists (length vs) (map int [0..<nat p]))"
    using len k by (simp add: set_n_lists)
  have zero: "lin_comb ?c vs t mod p = 0" if t: "t < n" for t
  proof -
    have "lin_comb ?c vs t = (\<Sum>j<k. (x j mod p) * vs ! j ! t)"
      using lin_comb_sum[OF len k] by simp
    moreover have "eqm p (\<Sum>j<k. (x j mod p) * vs ! j ! t) (\<Sum>j<k. vs ! j ! t * x j)"
    proof (rule eqm_sum)
      fix j
      have "eqm p ((x j mod p) * vs ! j ! t) (x j * vs ! j ! t)"
        by (rule eqm_mult[OF eqm_mod eqm_refl])
      then show "eqm p ((x j mod p) * vs ! j ! t) (vs ! j ! t * x j)"
        by (simp only: mult.commute[of "x j" "vs ! j ! t"])
    qed
    ultimately have "eqm p (lin_comb ?c vs t) (\<Sum>j<k. vs ! j ! t * x j)" by simp
    then have "eqm p (lin_comb ?c vs t) 0" using comb[OF t] by (rule eqm_trans)
    then show ?thesis by (simp add: eqm_def)
  qed
  have "list_all (\<lambda>t. lin_comb ?c vs t mod p = 0) [0..<n] \<longrightarrow> list_all (\<lambda>x. x = 0) ?c"
    using ind mem unfolding linearly_independent_def by (rule list_all_mem)
  moreover have "list_all (\<lambda>t. lin_comb ?c vs t mod p = 0) [0..<n]"
    using zero by (simp add: list_all_iff)
  ultimately have "list_all (\<lambda>x. x = 0) ?c" by simp
  then have "x j mod p = 0" using j by (simp add: list_all_iff)
  then show ?thesis by (simp add: eqm_def)
qed

lemma orthogonal_fun:
  assumes "orthogonal_to p s vs" and "length s = n" and "\<And>j. j < length vs \<Longrightarrow> length (vs ! j) = n"
    and "j < length vs"
  shows "eqm p (\<Sum>t<n. vs ! j ! t * s ! t) 0"
proof -
  have "dot (vs ! j) s mod p = 0"
    using assms(1,4) by (simp add: orthogonal_to_def list_all_length)
  then show ?thesis using dot_sum[OF assms(3)[OF assms(4)] assms(2)] by (simp add: eqm_def)
qed

text \<open>The entries of the augmented matrix \<open>[M | I]\<close> built from \<open>k\<close> vectors of length \<open>n\<close>.\<close>

lemma T_entry:
  assumes "dims k n E" and "0 < k" and "t < n" and "j < k"
  shows "T E ! t ! j = E ! j ! t" and "length (T E) = n" and "length (T E ! t) = k"
proof -
  have nc: "ncols E = n" using dims_ncols[OF assms(1,2)] .
  show "length (T E) = n" by (simp add: T_def nc)
  show "length (T E ! t) = k" using assms by (simp add: T_def nc dims_def)
  show "T E ! t ! j = E ! j ! t" using assms by (simp add: T_def nc dims_def)
qed

lemma augmented_dims:
  assumes "dims k n E" and "0 < k"
  shows "dims n (k + n) (hstack (T E) (eye (length (T E))))"
proof -
  have lt: "length (T E) = n" using dims_ncols[OF assms] by (simp add: T_def)
  have "length (T E ! t) = k" if "t < n" for t
    using that assms dims_ncols[OF assms] by (simp add: T_def dims_def)
  then show ?thesis
    unfolding dims_def by (simp add: hstack_def eye_def lt)
qed

lemma augmented_entries:
  assumes "dims k n E" and "0 < k" and "t < n"
  shows "j < k \<Longrightarrow> hstack (T E) (eye (length (T E))) ! t ! j = E ! j ! t"
    and "t' < n \<Longrightarrow> hstack (T E) (eye (length (T E))) ! t ! (k + t') = (if t' = t then 1 else 0)"
proof -
  have lt: "length (T E) = n" using dims_ncols[OF assms(1,2)] by (simp add: T_def)
  have lr: "length (T E ! t) = k" using T_entry(3)[OF assms(1,2,3)] assms(2) by simp
  have row: "hstack (T E) (eye (length (T E))) ! t = T E ! t @ eye n ! t"
    using assms(3) lt by (simp add: hstack_def eye_def)
  show "hstack (T E) (eye (length (T E))) ! t ! j = E ! j ! t" if "j < k"
    using that row lr T_entry(1)[OF assms that] by (simp add: nth_append)
  show "hstack (T E) (eye (length (T E))) ! t ! (k + t') = (if t' = t then 1 else 0)" if "t' < n"
    using that row lr assms(3) by (simp add: nth_append eye_def)
qed

lemma first_nonzero_nth:
  assumes "\<And>t. t < t1 \<Longrightarrow> s ! t = 0" and "t1 < length s" and "s ! t1 \<noteq> 0"
  shows "first_nonzero s = s ! t1"
proof -
  have split: "s = take t1 s @ s ! t1 # drop (Suc t1) s"
    using assms(2) by (simp add: id_take_nth_drop)
  have "filter (\<lambda>x. x \<noteq> 0) (take t1 s) = []"
    using assms(1,2) by (auto simp: filter_empty_conv in_set_conv_nth)
  then have "filter (\<lambda>x. x \<noteq> 0) s = s ! t1 # filter (\<lambda>x. x \<noteq> 0) (drop (Suc t1) s)"
    using assms(3) by (subst split) simp
  then show ?thesis by (simp add: first_nonzero_def)
qed

lemma is_secret_nonzero:
  assumes "is_secret p n s"
  shows "\<exists>t<n. \<not> eqm p (s ! t) 0"
proof -
  from assms have len: "length s = n" and rgl: "list_all (\<lambda>x. 0 \<le> x \<and> x < p) s"
    and nz: "\<not> list_all (\<lambda>x. x = 0) s"
    by (simp_all add: is_secret_def)
  have rg: "0 \<le> s ! t \<and> s ! t < p" if "t < n" for t
    using rgl that len by (simp add: list_all_length)
  from nz len obtain t where t: "t < n" "s ! t \<noteq> 0" by (auto simp: list_all_length)
  with rg[OF t(1)] have "s ! t mod p \<noteq> 0" by simp
  then have "\<not> eqm p (s ! t) 0" by (simp add: eqm_def)
  with t(1) show ?thesis by blast
qed

lemma find_at:
  assumes "k < length xs" and "P (xs ! k)" and "\<And>j. j < k \<Longrightarrow> \<not> P (xs ! j)"
  shows "find P xs = Some (xs ! k)"
  unfolding find_Some_iff using assms by blast

lemma drop_block:
  assumes "length row = k + n"
  shows "drop k row = map (\<lambda>t. row ! (k + t)) [0..<n]"
  using assms by (intro nth_equalityI) simp_all

text \<open>What the reduction of \<open>[M | I]\<close> looks like when the \<open>k = n - 1\<close> vectors are
  independent and orthogonal to the secret.\<close>

lemma reduced_shape:
  assumes p1: "1 < p"
    and ech: "echelon p n R r pivs c" and fin: "c = k + n \<or> r = n" and cN: "c \<le> k + n"
    and kerinc: "\<And>x. in_kernel p n (k + n) R x \<Longrightarrow> in_kernel p n (k + n) A0 x"
    and aug: "augmented p n k A0 (\<lambda>j t. vs ! j ! t)"
    and kn: "Suc k = n" and lk: "length vs = k" and lv: "list_all (\<lambda>v. length v = n) vs"
    and sec: "is_secret p n s"
    and orth: "orthogonal_to p s vs" and ind: "linearly_independent p n vs"
  shows "r = n \<and> (\<forall>j<k. eqm p (R j j) 1) \<and>
    (\<exists>t1<n. eqm p (R k (k + t1)) 1 \<and> (\<forall>j<k + t1. eqm p (R k j) 0) \<and>
       (\<forall>t<n. eqm p (s ! t) (s ! t1 * R k (k + t))))"
proof -
  have lens: "length s = n" using sec by (simp add: is_secret_def)
  have lvj: "\<And>j. j < length vs \<Longrightarrow> length (vs ! j) = n" using lv by (simp add: list_all_length)
  have indep: "eqm p (x j) 0"
    if "\<And>t. t < n \<Longrightarrow> eqm p (\<Sum>j<k. vs ! j ! t * x j) 0" and "j < k" for x j
    using linearly_independent_fun[OF ind p1 lk that] .
  have orthf: "eqm p (\<Sum>t<n. vs ! j ! t * s ! t) 0" if "j < k" for j
    using orthogonal_fun[OF orth lens lvj] that lk by simp
  have pre: "j < r \<and> pivs ! j = j" if jk: "j < k" for j
  proof (rule forced_pivots[where V = "\<lambda>j t. vs ! j ! t" and ?A0.0 = A0 and p = p and n = n
        and k = k and R = R and r = r and pivs = pivs and c = c and ?c0.0 = j])
    show "1 < p" by (rule p1)
    show "echelon p n R r pivs c" by (rule ech)
    show "c = k + n \<or> r = n" by (rule fin)
    show "in_kernel p n (k + n) A0 x" if "in_kernel p n (k + n) R x" for x
      using that by (rule kerinc)
    show "augmented p n k A0 (\<lambda>j t. vs ! j ! t)" by (rule aug)
    show "eqm p (x j) 0"
      if "\<And>t. t < n \<Longrightarrow> eqm p (\<Sum>j<k. vs ! j ! t * x j) 0" and "j < k" for x j
      using that by (rule indep)
    show "j < k" by (rule jk)
  qed
  from is_secret_nonzero[OF sec] obtain t0 where t0: "t0 < n" "\<not> eqm p (s ! t0) 0" by blast
  have rn: "r = n"
  proof (rule full_rank[where V = "\<lambda>j t. vs ! j ! t" and ?A0.0 = A0 and s = "\<lambda>t. s ! t"
        and p = p and n = n and k = k and R = R and r = r and pivs = pivs and c = c and ?t1.0 = t0])
    show "1 < p" by (rule p1)
    show "echelon p n R r pivs c" by (rule ech)
    show "c = k + n \<or> r = n" by (rule fin)
    show "in_kernel p n (k + n) A0 x" if "in_kernel p n (k + n) R x" for x
      using that by (rule kerinc)
    show "augmented p n k A0 (\<lambda>j t. vs ! j ! t)" by (rule aug)
    show "j < r \<and> pivs ! j = j" if "j < k" for j using that by (rule pre)
    show "eqm p (\<Sum>t<n. vs ! j ! t * s ! t) 0" if "j < k" for j using that by (rule orthf)
    show "Suc k = n" by (rule kn)
    show "t0 < n" by (rule t0(1))
    show "\<not> eqm p (s ! t0) 0" by (rule t0(2))
  qed
  have ech': "echelon p n R n pivs c" using ech rn by simp
  have pre': "pivs ! j = j" if "j < k" for j using pre[OF that] by simp
  have "\<exists>t1<n. pivs ! k = k + t1 \<and> eqm p (R k (k + t1)) 1 \<and>
      (\<forall>j<k + t1. eqm p (R k j) 0) \<and> (\<forall>t<n. eqm p (s ! t) (s ! t1 * R k (k + t)))"
  proof (rule last_row_proportional[where V = "\<lambda>j t. vs ! j ! t" and ?A0.0 = A0
        and s = "\<lambda>t. s ! t" and p = p and n = n and k = k and R = R and pivs = pivs and c = c])
    show "echelon p n R n pivs c" by (rule ech')
    show "c \<le> k + n" by (rule cN)
    show "in_kernel p n (k + n) A0 x" if "in_kernel p n (k + n) R x" for x
      using that by (rule kerinc)
    show "augmented p n k A0 (\<lambda>j t. vs ! j ! t)" by (rule aug)
    show "pivs ! j = j" if "j < k" for j using that by (rule pre')
    show "eqm p (\<Sum>t<n. vs ! j ! t * s ! t) 0" if "j < k" for j using that by (rule orthf)
    show "Suc k = n" by (rule kn)
  qed
  then obtain t1 where t1: "t1 < n" "eqm p (R k (k + t1)) 1" "\<forall>j<k + t1. eqm p (R k j) 0"
    "\<forall>t<n. eqm p (s ! t) (s ! t1 * R k (k + t))"
    by blast
  have diag: "eqm p (R j j) 1" if "j < k" for j
  proof -
    have "j < r" using pre[OF that] by simp
    then have "eqm p (R j (pivs ! j)) 1" using ech by (simp add: echelon_def)
    then show ?thesis using pre'[OF that] by simp
  qed
  from rn diag t1 show ?thesis by blast
qed

section \<open>Recovering a ternary secret\<close>

lemma mod3_unit_solve:
  fixes a b x :: int
  assumes "a = 1 \<or> a = 2" and "0 \<le> x" and "x < 3" and "b mod 3 = (a * x) mod 3"
  shows "x = (a * b) mod 3"
proof -
  have x: "x = 0 \<or> x = 1 \<or> x = 2" using assms(2,3) by arith
  have dbl: "(2 * b) mod 3 = (2 * (b mod 3)) mod 3" by (simp add: mod_mult_right_eq)
  show ?thesis
  proof (cases "a = 1")
    case True
    then show ?thesis using assms(2,3,4) by simp
  next
    case False
    then have a: "a = 2" using assms(1) by simp
    from x show ?thesis
    proof (elim disjE)
      assume "x = 0"
      then show ?thesis using assms(4) a dbl by simp
    next
      assume "x = 1"
      then show ?thesis using assms(4) a dbl by simp
    next
      assume "x = 2"
      then show ?thesis using assms(4) a dbl by simp
    qed
  qed
qed

lemma map_nth_fun: "map (\<lambda>t. f (s ! t)) [0..<length s] = map f s"
  by (rule nth_equalityI) simp_all

lemma is_matrix_same_length:
  assumes "list_all (\<lambda>v. length v = n) vs" and "vs \<noteq> []"
  shows "is_matrix vs" and "ncols vs = n"
proof -
  from assms obtain v rest where vs: "vs = v # rest" by (cases vs) auto
  with assms(1) show nc: "ncols vs = n" by (simp add: ncols_def)
  show "is_matrix vs" using assms(1) nc by (simp add: is_matrix_def)
qed

lemma Matrix_same_length:
  assumes "list_all (\<lambda>v. length v = n) vs" and "vs \<noteq> []" and "0 < n"
  shows "Matrix vs = Inr vs"
proof -
  have "\<forall>v\<in>set vs. v \<noteq> []" using assms(1,3) by (auto simp: list_all_iff)
  then have "filter (\<lambda>row. row \<noteq> []) vs = vs" by (simp add: filter_True)
  then show ?thesis using is_matrix_same_length(1)[OF assms(1,2)] by (simp add: Matrix_def)
qed

lemma secret_digits:
  assumes "is_secret p n s" and "t < n"
  shows "0 \<le> s ! t" and "s ! t < p"
  using assms by (simp_all add: is_secret_def list_all_length)

text \<open>The run of \<open>rref_mod3\<close> on the augmented matrix of independent vectors orthogonal
  to the secret, and the shape of its result.\<close>

lemma rref_mod3_augmented:
  assumes kn: "Suc k = n" and k0: "0 < k" and sec: "is_secret 3 n s"
    and lk: "length vs = k" and lv: "list_all (\<lambda>v. length v = n) vs"
    and orth: "orthogonal_to 3 s vs" and ind: "linearly_independent 3 n vs"
  shows "\<exists>R pivs t1. rref_mod3 (hstack (T (map (map mod3) vs)) (eye (length (T (map (map mod3) vs)))))
        = Inr (R, pivs) \<and>
      dims n (k + n) R \<and> range3 n (k + n) R \<and> t1 < n \<and>
      (\<forall>j<k. R ! j ! j = 1) \<and> R ! k ! (k + t1) = 1 \<and> (\<forall>j<k + t1. R ! k ! j = 0) \<and>
      (\<forall>t<n. eqm 3 (s ! t) (s ! t1 * R ! k ! (k + t)))"
proof -
  let ?E = "map (map mod3) vs"
  let ?MI = "hstack (T ?E) (eye (length (T ?E)))"
  let ?M0 = "map (map mod3) ?MI"
  have dE: "dims k n ?E" using lk lv by (simp add: dims_def list_all_length)
  have dMI: "dims n (k + n) ?MI" using augmented_dims[OF dE k0] .
  have n0: "0 < n" using kn by simp
  have lenMI: "length ?MI = n" using dMI by (simp add: dims_def)
  have ncMI: "ncols ?MI = k + n" using dims_ncols[OF dMI n0] .
  have d0: "dims n (k + n) ?M0" using dMI by (rule map_mod3_dims)
  have rg0: "range3 n (k + n) ?M0" using dMI by (rule map_mod3_range)
  have "tern_inv n (k + n) (fn ?M0) ?M0 0 [] 0"
    using d0 rg0 by (simp add: tern_inv_def echelon_start)
  from rref_mod3_loop_inv[OF this] obtain R pivs r c where
    run: "rref_mod3_loop n [0..<k + n] ?M0 0 [] = Inr (R, pivs)"
    and inv: "tern_inv n (k + n) (fn ?M0) R r pivs c" and fin: "c = k + n \<or> r = n"
    by blast
  have rref: "rref_mod3 ?MI = Inr (R, pivs)"
    using run lenMI ncMI by (simp add: rref_mod3_def)
  from inv have d: "dims n (k + n) R" and rg: "range3 n (k + n) R"
    and ech: "echelon 3 n (fn R) r pivs c" and cN: "c \<le> k + n"
    and kerinc: "\<And>x. in_kernel 3 n (k + n) (fn R) x \<Longrightarrow> in_kernel 3 n (k + n) (fn ?M0) x"
    by (simp_all add: tern_inv_def)
  have entry0: "fn ?M0 t j = mod3 (?MI ! t ! j)" if "t < n" "j < k + n" for t j
    using that dMI by (simp add: fn_def dims_def)
  have aug: "augmented 3 n k (fn ?M0) (\<lambda>j t. vs ! j ! t)"
    unfolding augmented_def
  proof (intro allI impI conjI)
    fix t j assume t: "t < n" and j: "j < k"
    have "?MI ! t ! j = mod3 (vs ! j ! t)"
      using augmented_entries(1)[OF dE k0 t j] j t lk lv by (simp add: list_all_length)
    then have "fn ?M0 t j = mod3 (mod3 (vs ! j ! t))" using entry0[OF t] j by simp
    then show "eqm 3 (fn ?M0 t j) (vs ! j ! t)" by (simp add: eqm_def mod3_def)
  next
    fix t t' assume t: "t < n" and t': "t' < n"
    have "?MI ! t ! (k + t') = (if t' = t then 1 else 0)"
      using augmented_entries(2)[OF dE k0 t t'] .
    then have "fn ?M0 t (k + t') = mod3 (if t' = t then 1 else 0)"
      using entry0[OF t, of "k + t'"] t' by simp
    then show "eqm 3 (fn ?M0 t (k + t')) (if t' = t then 1 else 0)"
      by (simp add: eqm_def mod3_def)
  qed
  have shape: "r = n \<and> (\<forall>j<k. eqm 3 (fn R j j) 1) \<and>
    (\<exists>t1<n. eqm 3 (fn R k (k + t1)) 1 \<and> (\<forall>j<k + t1. eqm 3 (fn R k j) 0) \<and>
       (\<forall>t<n. eqm 3 (s ! t) (s ! t1 * fn R k (k + t))))"
  proof (rule reduced_shape[where p = 3 and n = n and k = k and R = "fn R" and r = r
        and pivs = pivs and c = c and ?A0.0 = "fn ?M0" and vs = vs and s = s])
    show "(1::int) < 3" by simp
    show "echelon 3 n (fn R) r pivs c" by (rule ech)
    show "c = k + n \<or> r = n" by (rule fin)
    show "c \<le> k + n" by (rule cN)
    show "in_kernel 3 n (k + n) (fn ?M0) x" if "in_kernel 3 n (k + n) (fn R) x" for x
      using that by (rule kerinc)
    show "augmented 3 n k (fn ?M0) (\<lambda>j t. vs ! j ! t)" by (rule aug)
    show "Suc k = n" by (rule kn)
    show "length vs = k" by (rule lk)
    show "list_all (\<lambda>v. length v = n) vs" by (rule lv)
    show "is_secret 3 n s" by (rule sec)
    show "orthogonal_to 3 s vs" by (rule orth)
    show "linearly_independent 3 n vs" by (rule ind)
  qed
  then obtain t1 where t1: "t1 < n" "eqm 3 (fn R k (k + t1)) 1"
    "\<forall>j<k + t1. eqm 3 (fn R k j) 0" "\<forall>t<n. eqm 3 (s ! t) (s ! t1 * fn R k (k + t))"
    and diag: "\<forall>j<k. eqm 3 (fn R j j) 1"
    by blast
  have kn': "k < n" using kn by simp
  have e1: "\<forall>j<k. R ! j ! j = 1"
  proof (intro allI impI)
    fix j assume j: "j < k"
    then have "eqm 3 (fn R j j) 1" using diag by simp
    moreover have "j < n" "j < k + n" using j kn' by simp_all
    ultimately show "R ! j ! j = 1" using range3_exact(2)[OF rg] by blast
  qed
  have kt1: "k + t1 < k + n" using t1(1) by simp
  have e2: "R ! k ! (k + t1) = 1"
    using t1(2) range3_exact(2)[OF rg kn' kt1] by blast
  have e3: "\<forall>j<k + t1. R ! k ! j = 0"
  proof (intro allI impI)
    fix j assume j: "j < k + t1"
    then have "eqm 3 (fn R k j) 0" using t1(3) by simp
    moreover have "j < k + n" using j t1(1) by simp
    ultimately show "R ! k ! j = 0" using range3_exact(1)[OF rg kn'] by blast
  qed
  have e4: "\<forall>t<n. eqm 3 (s ! t) (s ! t1 * R ! k ! (k + t))"
    using t1(4) by (simp add: fn_def)
  show ?thesis
    by (intro exI[of _ R] exI[of _ pivs] exI[of _ t1] conjI rref d rg t1(1) e1 e2 e3 e4)
qed

lemma map_mod3_fixed': 
  assumes "dims n N R" and "range3 n N R"
  shows "map (map (\<lambda>x. x mod 3)) R = R"
  using map_mod3_fixed[OF assms] by (simp add: mod3_def[abs_def])

text \<open>
  Claim C3 says that the ternary extraction returns exactly the secret. For \<open>n = 2\<close>, the
  secret \<open>20\<close> and the one measured outcome \<open>0001\<close>, which encodes the vector \<open>[0,1]\<close>
  orthogonal to the secret, the function returns \<open>10\<close>, which is twice the secret mod 3.
\<close>

theorem ternary_round_trip_counterexample:
  "is_secret 3 2 [2, 0] \<and> equations_3d 2 [(''0001'', 1)] = Inr [[0, 1]] \<and>
   orthogonal_to 3 [2, 0] [[0, 1]] \<and> linearly_independent 3 2 [[0, 1]] \<and>
   recover_secret_string_3d 2 [(''0001'', 1)] \<noteq> Inr (PyStr (digits_string [2, 0]))"
  by code_simp

text \<open>
  Claim C3, amended. For every \<open>n \<ge> 2\<close> and every non-zero ternary secret \<open>s\<close> of length
  \<open>n\<close>, if the measurement results encode \<open>n - 1\<close> vectors of length \<open>n\<close> that are linearly
  independent mod 3 and orthogonal to \<open>s\<close> mod 3, then \<open>recover_secret_string_3d\<close> returns
  the string of the non-zero multiple of \<open>s\<close> whose first non-zero digit is 1: \<open>s\<close> itself
  when the first non-zero digit of \<open>s\<close> is 1, and \<open>2 s\<close> mod 3 when it is 2.
\<close>

theorem ternary_round_trip:
  assumes n2: "2 \<le> n" and sec: "is_secret 3 n s"
    and eqs: "equations_3d n results = Inr vs"
    and lk: "length vs = n - 1" and lv: "list_all (\<lambda>v. length v = n) vs"
    and orth: "orthogonal_to 3 s vs" and ind: "linearly_independent 3 n vs"
  shows "recover_secret_string_3d n results =
    Inr (PyStr (digits_string (if first_nonzero s = 1 then s else map (\<lambda>x. (2 * x) mod 3) s)))"
proof -
  define k where "k = n - 1"
  have kn: "Suc k = n" and k0: "0 < k" using n2 by (simp_all add: k_def)
  have lk': "length vs = k" using lk by (simp add: k_def)
  have ne: "vs \<noteq> []" using lk' k0 by auto
  have mat: "Matrix vs = Inr vs" using Matrix_same_length[OF lv ne] n2 by simp
  let ?MI = "hstack (T (map (map mod3) vs)) (eye (length (T (map (map mod3) vs))))"
  from rref_mod3_augmented[OF kn k0 sec lk' lv orth ind] obtain R pivs t1 where
    rref: "rref_mod3 ?MI = Inr (R, pivs)"
    and d: "dims n (k + n) R" and rg: "range3 n (k + n) R" and t1: "t1 < n"
    and e1: "\<forall>j<k. R ! j ! j = 1" and e2: "R ! k ! (k + t1) = 1"
    and e3: "\<forall>j<k + t1. R ! k ! j = 0"
    and e4: "\<forall>t<n. eqm 3 (s ! t) (s ! t1 * R ! k ! (k + t))"
    by blast
  have lens: "length s = n" using sec by (simp add: is_secret_def)
  have kn': "k < n" using kn by simp
  have lenR: "length R = n" and lenRk: "length (R ! k) = k + n"
    using d kn' by (simp_all add: dims_def)
  have lenRj: "length (R ! j) = k + n" if "j < n" for j using d that by (simp add: dims_def)
  \<comment> \<open>the leading digit of the secret\<close>
  have a_nz: "s ! t1 \<noteq> 0"
  proof
    assume z: "s ! t1 = 0"
    have "eqm 3 (s ! t) 0" if "t < n" for t
    proof -
      have "eqm 3 (s ! t) (s ! t1 * R ! k ! (k + t))" using e4 that by blast
      then show ?thesis using z by simp
    qed
    with is_secret_nonzero[OF sec] show False by blast
  qed
  have a12: "s ! t1 = 1 \<or> s ! t1 = 2"
    using secret_digits[OF sec t1] a_nz by arith
  have before: "s ! t = 0" if "t < t1" for t
  proof -
    have tn: "t < n" using that t1 by simp
    have "R ! k ! (k + t) = 0" using e3 that by simp
    moreover have "eqm 3 (s ! t) (s ! t1 * R ! k ! (k + t))" using e4 tn by blast
    ultimately have "eqm 3 (s ! t) 0" by simp
    then show ?thesis using secret_digits[OF sec tn] by (simp add: eqm_def)
  qed
  have lead: "first_nonzero s = s ! t1"
    by (rule first_nonzero_nth) (use before t1 lens a_nz in simp_all)
  have entry: "R ! k ! (k + t) = (s ! t1 * s ! t) mod 3" if t: "t < n" for t
  proof (rule mod3_unit_solve[OF a12])
    have "0 \<le> R ! k ! (k + t) \<and> R ! k ! (k + t) < 3"
      using rg kn' t by (simp add: range3_def)
    then show "0 \<le> R ! k ! (k + t)" "R ! k ! (k + t) < 3" by simp_all
    show "s ! t mod 3 = (s ! t1 * R ! k ! (k + t)) mod 3" using e4 t by (simp add: eqm_def)
  qed
  have block: "drop k (R ! k) = map (\<lambda>x. (s ! t1 * x) mod 3) s"
  proof -
    have "drop k (R ! k) = map (\<lambda>t. R ! k ! (k + t)) [0..<n]" using drop_block[OF lenRk] .
    also have "\<dots> = map (\<lambda>t. (s ! t1 * s ! t) mod 3) [0..<n]" using entry by simp
    also have "\<dots> = map (\<lambda>x. (s ! t1 * x) mod 3) s"
      using map_nth_fun[of "\<lambda>x. (s ! t1 * x) mod 3" s] lens by simp
    finally show ?thesis .
  qed
  have target: "drop k (R ! k) = (if first_nonzero s = 1 then s else map (\<lambda>x. (2 * x) mod 3) s)"
  proof (cases "s ! t1 = 1")
    case True
    have "map (\<lambda>x. (1 * x) mod 3) s = s"
    proof (rule map_idI)
      fix x assume "x \<in> set s"
      then obtain t where "t < n" "x = s ! t" using lens by (auto simp: in_set_conv_nth)
      then show "(1 * x) mod 3 = x" using secret_digits[OF sec] by simp
    qed
    then show ?thesis using block lead True by simp
  next
    case False
    then have "s ! t1 = 2" using a12 by simp
    then show ?thesis using block lead by simp
  qed
  \<comment> \<open>the scan of the rows stops at the last row\<close>
  let ?P = "\<lambda>row. list_all (\<lambda>v. v mod 3 = 0) (take k row)"
  have last_ok: "?P (R ! k)"
    using e3 lenRk by (simp add: list_all_length)
  have others: "\<not> ?P (R ! j)" if j: "j < k" for j
  proof
    assume "?P (R ! j)"
    moreover have "j < length (take k (R ! j))" using lenRj[of j] j kn' by simp
    ultimately have "(take k (R ! j)) ! j mod 3 = 0" by (simp add: list_all_length)
    then show False using e1 j by simp
  qed
  have "find ?P R = Some (R ! k)"
    by (rule find_at) (use lenR kn' last_ok others in simp_all)
  then have scan: "first_solution_3d n k R = digits_string (drop k (R ! k))"
    by (simp add: first_solution_3d_def solution_scan_first digits_string_def)
  have final: "map (map (\<lambda>x. x mod 3)) R = R" using map_mod3_fixed'[OF d rg] .
  show ?thesis
    unfolding recover_secret_string_3d_def
    using eqs ne mat rref final scan target lk' by (simp add: Let_def)
qed

theorem ternary_round_trip_witness:
  "(2::nat) \<le> 3 \<and> is_secret 3 3 [1, 2, 0] \<and>
   equations_3d 3 [(''010100'', 2), (''000001'', 1)] = Inr [[1, 1, 0], [0, 0, 1]] \<and>
   length [[1, 1, 0], [0, 0, 1 :: int]] = 3 - 1 \<and>
   list_all (\<lambda>v. length v = 3) [[1, 1, 0], [0, 0, 1 :: int]] \<and>
   orthogonal_to 3 [1, 2, 0] [[1, 1, 0], [0, 0, 1]] \<and>
   linearly_independent 3 3 [[1, 1, 0], [0, 0, 1]] \<and>
   recover_secret_string_3d 3 [(''010100'', 2), (''000001'', 1)] = Inr (PyStr ''120'')"
proof -
  have h1: "(2::nat) \<le> 3" by simp
  have h2: "is_secret 3 3 [1, 2, 0]" by code_simp
  have h3: "equations_3d 3 [(''010100'', 2), (''000001'', 1)] = Inr [[1, 1, 0], [0, 0, 1]]"
    by code_simp
  have h4: "length [[1, 1, 0], [0, 0, 1 :: int]] = 3 - 1" by simp
  have h5: "list_all (\<lambda>v. length v = 3) [[1, 1, 0], [0, 0, 1 :: int]]" by simp
  have h6: "orthogonal_to 3 [1, 2, 0] [[1, 1, 0], [0, 0, 1]]" by code_simp
  have h7: "linearly_independent 3 3 [[1, 1, 0], [0, 0, 1]]" by code_simp
  have out: "digits_string (if first_nonzero [1, 2, 0] = 1 then [1, 2, 0]
      else map (\<lambda>x. (2 * x) mod 3) [1, 2, 0]) = ''120''"
    by code_simp
  show ?thesis
    using ternary_round_trip[OF h1 h2 h3 h4 h5 h6 h7] h2 h3 h5 h6 h7
    by (simp only: out) simp
qed

section \<open>Recovering a binary secret\<close>

lemma row_swap_nth':
  "pr < length M \<Longrightarrow> r < length M \<Longrightarrow> i < length M \<Longrightarrow>
   row_swap r pr M ! i = (if i = pr then M ! r else if i = r then M ! pr else M ! i)"
  by (simp add: row_swap_def nth_list_update)

lemma row_swap_dims': "dims n N M \<Longrightarrow> pr < n \<Longrightarrow> r < n \<Longrightarrow> dims n N (row_swap r pr M)"
  unfolding dims_def by (auto simp: row_swap_def nth_list_update)

lemma find_pivot_offset_Some:
  "find_pivot_offset iszerofunc col = Some off \<Longrightarrow> off < length col \<and> \<not> iszerofunc (col ! off)"
proof (induction col arbitrary: off)
  case Nil
  then show ?case by simp
next
  case (Cons x col)
  show ?case
  proof (cases "iszerofunc x")
    case False
    with Cons.prems show ?thesis by simp
  next
    case True
    with Cons.prems obtain off' where "find_pivot_offset iszerofunc col = Some off'" "off = Suc off'"
      by auto
    with Cons.IH[of off'] show ?thesis by simp
  qed
qed

lemma find_pivot_offset_None:
  "find_pivot_offset iszerofunc col = None \<Longrightarrow> i < length col \<Longrightarrow> iszerofunc (col ! i)"
proof (induction col arbitrary: i)
  case Nil
  then show ?case by simp
next
  case (Cons x col)
  then show ?case by (cases i) (auto split: if_splits)
qed

lemma cross_cancel_rows_length: "length (cross_cancel_rows iszerofunc mat r c) = length mat"
  by (simp add: cross_cancel_rows_def Let_def)

lemma cross_cancel_rows_row:
  "i < length mat \<Longrightarrow>
   cross_cancel_rows iszerofunc mat r c ! i =
     (if i = r then mat ! i
      else if iszerofunc (mat ! i ! c) then mat ! i
      else map2 (\<lambda>a b. mat ! r ! c * a - mat ! i ! c * b) (mat ! i) (mat ! r))"
  by (simp add: cross_cancel_rows_def Let_def)

lemma cross_cancel_rows_dims:
  assumes "dims n N mat" and "r < n"
  shows "dims n N (cross_cancel_rows iszerofunc mat r c)"
  using assms unfolding dims_def
  by (auto simp: cross_cancel_rows_length cross_cancel_rows_row)

lemma cross_cancel_rows_entry:
  assumes "dims n N mat" and "r < n" and "i < n" and "j < N"
  shows "cross_cancel_rows iszerofunc mat r c ! i ! j =
     (if i = r then mat ! i ! j
      else if iszerofunc (mat ! i ! c) then mat ! i ! j
      else mat ! r ! c * mat ! i ! j - mat ! i ! c * mat ! r ! j)"
  using assms unfolding dims_def by (auto simp: cross_cancel_rows_row)

lemma get_col_drop:
  "i + r < length mat \<Longrightarrow> drop r (get_col mat c) ! i = mat ! (i + r) ! c"
  by (simp add: get_col_def add.commute)

lemma eqm2_odd: "a mod 2 \<noteq> 0 \<Longrightarrow> eqm 2 a 1"
  by (simp add: eqm_def)

lemma eqm2_even: "a mod 2 = 0 \<Longrightarrow> eqm 2 a 0"
  by (simp add: eqm_def)

lemma binary_step:
  assumes d: "dims n N mat" and c: "c < N" and r: "r < n"
    and found: "find_pivot_offset (\<lambda>x. x mod 2 = 0) (drop r (get_col mat c)) = Some off"
  shows "dims n N (cross_cancel_rows (\<lambda>x. x mod 2 = 0)
            (if off \<noteq> 0 then row_swap r (off + r) mat else mat) r c) \<and>
      pivot_rel 2 n N r c (fn mat)
        (fn (cross_cancel_rows (\<lambda>x. x mod 2 = 0)
            (if off \<noteq> 0 then row_swap r (off + r) mat else mat) r c))"
proof -
  let ?z = "\<lambda>x::int. x mod 2 = 0"
  from d have len: "length mat = n" by (simp add: dims_def)
  from find_pivot_offset_Some[OF found] have off: "off < n - r"
    and odd0: "\<not> ?z (drop r (get_col mat c) ! off)"
    by (simp_all add: get_col_def len)
  define pr where "pr = off + r"
  have pr: "r \<le> pr" "pr < n" using off by (simp_all add: pr_def)
  have oddp: "mat ! pr ! c mod 2 \<noteq> 0"
    using odd0 get_col_drop[of off r mat c] pr len by (simp add: pr_def)
  let ?M1 = "if off \<noteq> 0 then row_swap r (off + r) mat else mat"
  have rows1: "?M1 ! i = (if i = pr then mat ! r else if i = r then mat ! pr else mat ! i)"
    if "i < n" for i
    using that pr r len by (auto simp: row_swap_nth' pr_def)
  have d1: "dims n N ?M1" using d pr r by (simp add: row_swap_dims' pr_def)
  let ?M3 = "cross_cancel_rows ?z ?M1 r c"
  have d3: "dims n N ?M3" using cross_cancel_rows_dims[OF d1 r] .
  have e3: "?M3 ! i ! j =
      (if i = r then ?M1 ! i ! j
       else if ?z (?M1 ! i ! c) then ?M1 ! i ! j
       else ?M1 ! r ! c * ?M1 ! i ! j - ?M1 ! i ! c * ?M1 ! r ! j)" if "i < n" "j < N" for i j
    using cross_cancel_rows_entry[OF d1 r that] .
  have r1: "?M1 ! r = mat ! pr" using rows1[OF r] by simp
  have pv1: "eqm 2 (?M1 ! r ! c) 1" using r1 oddp eqm2_odd by simp
  have rowr: "eqm 2 (fn ?M3 r j) (1 * fn mat pr j)" if j: "j < N" for j
    using e3[OF r j] r1 by (simp add: fn_def)
  have piv: "eqm 2 (fn ?M3 r c) 1" using e3[OF r c] pv1 by (simp add: fn_def)
  have colc: "eqm 2 (fn ?M3 i c) 0" if i: "i < n" "i \<noteq> r" for i
  proof (cases "?z (?M1 ! i ! c)")
    case True
    then show ?thesis using e3[OF i(1) c] i(2) eqm2_even by (simp add: fn_def)
  next
    case False
    then have "?M3 ! i ! c = 0" using e3[OF i(1) c] i(2) by simp
    then show ?thesis by (simp add: fn_def)
  qed
  have rest: "eqm 2 (fn ?M3 i j) (fn mat (if i = pr then r else i) j - ?M1 ! i ! c * fn ?M3 r j)"
    if i: "i < n" "i \<noteq> r" and j: "j < N" for i j
  proof -
    have src: "?M1 ! i ! j = fn mat (if i = pr then r else i) j"
      using rows1[OF i(1)] i(2) by (simp add: fn_def)
    have r3: "fn ?M3 r j = ?M1 ! r ! j" using e3[OF r j] by (simp add: fn_def)
    show ?thesis
    proof (cases "?z (?M1 ! i ! c)")
      case True
      then have same: "fn ?M3 i j = ?M1 ! i ! j" using e3[OF i(1) j] i(2) by (simp add: fn_def)
      have "eqm 2 (?M1 ! i ! c) 0" using True by (rule eqm2_even)
      then have "eqm 2 (?M1 ! i ! c * ?M1 ! r ! j) (0 * ?M1 ! r ! j)"
        by (rule eqm_mult[OF _ eqm_refl])
      then have "eqm 2 (?M1 ! i ! j - ?M1 ! i ! c * ?M1 ! r ! j) (?M1 ! i ! j - 0 * ?M1 ! r ! j)"
        by (rule eqm_diff[OF eqm_refl])
      then have "eqm 2 (?M1 ! i ! j) (?M1 ! i ! j - ?M1 ! i ! c * ?M1 ! r ! j)"
        by (simp add: eqm_def)
      then show ?thesis using same src r3 by simp
    next
      case False
      then have "fn ?M3 i j = ?M1 ! r ! c * ?M1 ! i ! j - ?M1 ! i ! c * ?M1 ! r ! j"
        using e3[OF i(1) j] i(2) by (simp add: fn_def)
      moreover have "eqm 2 (?M1 ! r ! c * ?M1 ! i ! j - ?M1 ! i ! c * ?M1 ! r ! j)
          (1 * ?M1 ! i ! j - ?M1 ! i ! c * ?M1 ! r ! j)"
        by (rule eqm_diff[OF eqm_mult[OF pv1 eqm_refl] eqm_refl])
      ultimately show ?thesis using src r3 by simp
    qed
  qed
  have "pivot_rel 2 n N r c (fn mat) (fn ?M3)"
    unfolding pivot_rel_def
    using pr rowr piv colc rest
    by (intro exI[of _ pr] exI[of _ 1] exI[of _ "\<lambda>i. ?M1 ! i ! c"]) simp
  with d3 show ?thesis by blast
qed

lemma row_reduce_inv:
  "bin_inv n N A0 mat r pivs c \<Longrightarrow>
   \<exists>R pivs' r' c'. row_reduce (\<lambda>x. x mod 2 = 0) n N mat r c pivs = (R, pivs') \<and>
     bin_inv n N A0 R r' pivs' c' \<and> (c' = N \<or> r' = n)"
proof (induction "N - c" arbitrary: c mat r pivs)
  case 0
  then have "c = N" by (simp add: bin_inv_def)
  then have "row_reduce (\<lambda>x. x mod 2 = 0) n N mat r c pivs = (mat, pivs)"
    by (simp add: row_reduce.simps)
  with 0 \<open>c = N\<close> show ?case by blast
next
  case (Suc d)
  then have c: "c < N" and d: "d = N - Suc c" by simp_all
  from Suc.prems have dm: "dims n N mat"
    and ech: "echelon 2 n (fn mat) r pivs c"
    and ker: "\<And>x. in_kernel 2 n N (fn mat) x \<Longrightarrow> in_kernel 2 n N A0 x"
    by (simp_all add: bin_inv_def)
  from ech have rn: "r \<le> n" by (simp add: echelon_def)
  from dm have len: "length mat = n" by (simp add: dims_def)
  show ?case
  proof (cases "r < n")
    case False
    then have "r = n" using rn by simp
    moreover have "row_reduce (\<lambda>x. x mod 2 = 0) n N mat r c pivs = (mat, pivs)"
      using False by (simp add: row_reduce.simps)
    ultimately show ?thesis using Suc.prems by blast
  next
    case True
    show ?thesis
    proof (cases "find_pivot_offset (\<lambda>x. x mod 2 = 0) (drop r (get_col mat c))")
      case None
      have "echelon 2 n (fn mat) r pivs (Suc c)"
      proof (rule echelon_skip[OF ech])
        fix i assume i: "i < n" "r \<le> i"
        have "i - r < length (drop r (get_col mat c))" using i True len by (simp add: get_col_def)
        from find_pivot_offset_None[OF None this]
        have "drop r (get_col mat c) ! (i - r) mod 2 = 0" .
        moreover have "drop r (get_col mat c) ! (i - r) = mat ! i ! c"
          using get_col_drop[of "i - r" r mat c] i len by simp
        ultimately show "eqm 2 (fn mat i c) 0" by (simp add: fn_def eqm2_even)
      qed
      then have "bin_inv n N A0 mat r pivs (Suc c)"
        using dm ker c by (simp add: bin_inv_def)
      from Suc.hyps(1)[OF d this] obtain R pivs' r' c' where
        res: "row_reduce (\<lambda>x. x mod 2 = 0) n N mat r (Suc c) pivs = (R, pivs')"
          "bin_inv n N A0 R r' pivs' c'" "c' = N \<or> r' = n"
        by blast
      have "row_reduce (\<lambda>x. x mod 2 = 0) n N mat r c pivs = (R, pivs')"
        using res(1) None True c by (subst row_reduce.simps) simp
      with res(2,3) show ?thesis by blast
    next
      case (Some off)
      let ?M3 = "cross_cancel_rows (\<lambda>x. x mod 2 = 0)
            (if off \<noteq> 0 then row_swap r (off + r) mat else mat) r c"
      from binary_step[OF dm c True Some] have d3: "dims n N ?M3"
        and step: "pivot_rel 2 n N r c (fn mat) (fn ?M3)"
        by simp_all
      have ech3: "echelon 2 n (fn ?M3) (Suc r) (pivs @ [c]) (Suc c)"
        using echelon_pivot[OF ech step c] .
      have ker3: "in_kernel 2 n N A0 x" if "in_kernel 2 n N (fn ?M3) x" for x
        using ker[OF kernel_step[OF step that]] .
      have "bin_inv n N A0 ?M3 (Suc r) (pivs @ [c]) (Suc c)"
        using d3 ech3 ker3 c by (simp add: bin_inv_def)
      from Suc.hyps(1)[OF d this] obtain R pivs' r' c' where
        res: "row_reduce (\<lambda>x. x mod 2 = 0) n N ?M3 (Suc r) (Suc c) (pivs @ [c]) = (R, pivs')"
          "bin_inv n N A0 R r' pivs' c'" "c' = N \<or> r' = n"
        by blast
      have "row_reduce (\<lambda>x. x mod 2 = 0) n N mat r c pivs = (R, pivs')"
        using res(1) Some True c by (subst row_reduce.simps) simp
      with res(2,3) show ?thesis by blast
    qed
  qed
qed

lemma mod2_of_int: "mod2 (of_int a) = a mod 2"
proof -
  have "quotient_of (of_int a) = (a, 1)"
    using quotient_of_int[of a] by (simp add: Rat.of_int_def)
  then show ?thesis by (simp add: mod2_def)
qed

lemma mod2_one: "mod2 1 = 1"
  by (simp add: mod2_def)

lemma parity_mod2: "(a::int) mod 2 = b mod 2 \<longleftrightarrow> (even a \<longleftrightarrow> even b)"
  by presburger

lemma mod2_div_odd:
  assumes "b mod 2 \<noteq> 0"
  shows "mod2 (of_int a / of_int b) = a mod 2"
proof -
  let ?g = "gcd a b"
  have oddb: "odd b" using assms by presburger
  have b0: "b \<noteq> 0" using oddb by auto
  have g_dvd: "?g dvd a" "?g dvd b" by simp_all
  have oddg: "odd ?g" using oddb g_dvd(2) by (meson dvd_trans)
  have a_eq: "a = ?g * (a div ?g)" using g_dvd(1) by simp
  have par: "even (a div ?g) \<longleftrightarrow> even a"
    using oddg a_eq by (metis even_mult_iff)
  have num: "fst (quotient_of (of_int a / of_int b)) = (if 0 < b then a div ?g else a div (- ?g))"
    using b0 by (simp add: Fract_of_int_quotient[symmetric] quotient_of_Fract Rat.normalize_def Let_def)
  have neg: "a div (- ?g) = - (a div ?g)"
    using g_dvd(1) by (simp add: dvd_neg_div div_minus_right)
  have "even (fst (quotient_of (of_int a / of_int b))) \<longleftrightarrow> even a"
    using num neg par by simp
  then show ?thesis unfolding mod2_def parity_mod2 .
qed

lemma normalize_rows_nth:
  "a + length pjs \<le> length Q \<Longrightarrow>
   length (normalize_rows (zip [a..<a + length pjs] pjs) Q) = length Q \<and>
   (\<forall>i<length Q. normalize_rows (zip [a..<a + length pjs] pjs) Q ! i =
      (if a \<le> i \<and> i < a + length pjs then normalized_row (pjs ! (i - a)) (Q ! i) else Q ! i))"
proof (induction pjs arbitrary: a Q)
  case Nil
  then show ?case by auto
next
  case (Cons pj pjs)
  let ?Q' = "Q[a := normalized_row pj (Q ! a)]"
  have "[a..<a + length (pj # pjs)] = a # [Suc a..<a + length (pj # pjs)]"
    by (rule upt_conv_Cons) simp
  moreover have "a + length (pj # pjs) = Suc a + length pjs" by simp
  ultimately have "[a..<a + length (pj # pjs)] = a # [Suc a..<Suc a + length pjs]"
    by (simp only:)
  then have unfold: "zip [a..<a + length (pj # pjs)] (pj # pjs) = (a, pj) # zip [Suc a..<Suc a + length pjs] pjs"
    by (simp only: zip_Cons_Cons)
  have step: "normalize_rows (zip [a..<a + length (pj # pjs)] (pj # pjs)) Q =
      normalize_rows (zip [Suc a..<Suc a + length pjs] pjs) ?Q'"
    unfolding unfold by (simp add: normalized_row_def Let_def)
  have pre: "Suc a + length pjs \<le> length ?Q'" using Cons.prems by simp
  from Cons.IH[OF pre] have
    len: "length (normalize_rows (zip [Suc a..<Suc a + length pjs] pjs) ?Q') = length Q"
    and nth: "\<And>i. i < length Q \<Longrightarrow>
      normalize_rows (zip [Suc a..<Suc a + length pjs] pjs) ?Q' ! i =
        (if Suc a \<le> i \<and> i < Suc a + length pjs then normalized_row (pjs ! (i - Suc a)) (?Q' ! i)
         else ?Q' ! i)"
    by simp_all
  show ?case
  proof (intro conjI allI impI)
    show "length (normalize_rows (zip [a..<a + length (pj # pjs)] (pj # pjs)) Q) = length Q"
      using step len by simp
  next
    fix i assume i: "i < length Q"
    show "normalize_rows (zip [a..<a + length (pj # pjs)] (pj # pjs)) Q ! i =
        (if a \<le> i \<and> i < a + length (pj # pjs)
         then normalized_row ((pj # pjs) ! (i - a)) (Q ! i) else Q ! i)"
    proof (cases "i = a")
      case True
      then show ?thesis using step nth[OF i] i by simp
    next
      case False
      then show ?thesis
        using step nth[OF i] i by (auto simp: nth_Cons' Suc_diff_Suc)
    qed
  qed
qed

lemma normalized_row_mod2:
  assumes pj: "pj < length irow" and odd: "irow ! pj mod 2 \<noteq> 0" and j: "j < length irow"
  shows "length (normalized_row pj (map of_int irow)) = length irow"
    and "mod2 (normalized_row pj (map of_int irow) ! j) = irow ! j mod 2"
proof -
  let ?row = "map of_int irow :: rat list"
  show "length (normalized_row pj ?row) = length irow"
    using pj by (simp add: normalized_row_def)
  consider "j < pj" | "j = pj" | "pj < j" by linarith
  then show "mod2 (normalized_row pj ?row ! j) = irow ! j mod 2"
  proof cases
    case 1
    then have "normalized_row pj ?row ! j = of_int (irow ! j)"
      using pj by (simp add: normalized_row_def nth_append)
    then show ?thesis by (simp add: mod2_of_int)
  next
    case 2
    then have "normalized_row pj ?row ! j = 1"
      using pj by (simp add: normalized_row_def nth_append)
    moreover have "irow ! pj mod 2 = 1" using odd by presburger
    ultimately show ?thesis using 2 by (simp add: mod2_one)
  next
    case 3
    then obtain d where d: "j = Suc pj + d" using less_iff_Suc_add by auto
    have "normalized_row pj ?row ! j = of_int (irow ! j) / of_int (irow ! pj)"
      using pj j d by (simp add: normalized_row_def nth_append)
    then show ?thesis using mod2_div_odd[OF odd] by simp
  qed
qed

lemma last_at: "xs \<noteq> [] \<Longrightarrow> length xs = Suc k \<Longrightarrow> last xs = xs ! k"
  by (simp add: last_conv_nth)

lemma rref_final_mod2:
  assumes d: "dims n N mat" and ech: "echelon 2 n (fn mat) r pivs c" and cN: "c \<le> N"
  shows "dims n N (map (map mod2)
            (normalize_rows (zip [0..<length pivs] pivs) (map (map of_int) mat)))"
    and "\<And>i j. i < n \<Longrightarrow> j < N \<Longrightarrow>
      map (map mod2) (normalize_rows (zip [0..<length pivs] pivs) (map (map of_int) mat)) ! i ! j
        = mat ! i ! j mod 2"
proof -
  let ?Q = "map (map of_int) mat :: rat list list"
  let ?X = "normalize_rows (zip [0..<length pivs] pivs) ?Q"
  from d have len: "length mat = n" and lrow: "\<And>i. i < n \<Longrightarrow> length (mat ! i) = N"
    by (simp_all add: dims_def)
  from ech have lp: "length pivs = r" and rn: "r \<le> n"
    and below: "\<And>q. q \<in> set pivs \<Longrightarrow> q < c"
    and one: "\<And>i. i < r \<Longrightarrow> eqm 2 (fn mat i (pivs ! i)) 1"
    unfolding echelon_def by auto
  have pre: "0 + length pivs \<le> length ?Q" using lp rn len by simp
  from normalize_rows_nth[OF pre] have lenX: "length ?X = n"
    and nthX: "\<And>i. i < n \<Longrightarrow>
      ?X ! i = (if i < r then normalized_row (pivs ! i) (?Q ! i) else ?Q ! i)"
    using len lp by simp_all
  have row: "length (?X ! i) = N \<and> (\<forall>j<N. mod2 (?X ! i ! j) = mat ! i ! j mod 2)"
    if i: "i < n" for i
  proof (cases "i < r")
    case True
    have Qi: "?Q ! i = map of_int (mat ! i)" using i len by simp
    have pj: "pivs ! i < length (mat ! i)"
      using below[of "pivs ! i"] True lp cN lrow[OF i] by simp
    have odd: "mat ! i ! (pivs ! i) mod 2 \<noteq> 0"
      using one[OF True] by (simp add: eqm_def fn_def)
    have "length (normalized_row (pivs ! i) (map of_int (mat ! i))) = N"
      using normalized_row_mod2(1)[OF pj odd pj] lrow[OF i] by simp
    moreover have "mod2 (normalized_row (pivs ! i) (map of_int (mat ! i)) ! j) = mat ! i ! j mod 2"
      if "j < N" for j
      using normalized_row_mod2(2)[OF pj odd, of j] that lrow[OF i] by simp
    ultimately show ?thesis using nthX[OF i] True Qi by simp
  next
    case False
    have Qi: "?Q ! i = map of_int (mat ! i)" using i len by simp
    show ?thesis using nthX[OF i] False Qi lrow[OF i] by (simp add: mod2_of_int)
  qed
  show "dims n N (map (map mod2) ?X)"
    unfolding dims_def using lenX row by simp
  show "map (map mod2) ?X ! i ! j = mat ! i ! j mod 2" if "i < n" "j < N" for i j
    using that lenX row[OF that(1)] by simp
qed

text \<open>
  With a library that honours the zero test the reduction is a reduction mod 2, and the
  round trip holds: for every \<open>n \<ge> 2\<close> and every non-zero binary secret \<open>s\<close> of length
  \<open>n\<close>, if the equation list holds \<open>n - 1\<close> vectors of length \<open>n\<close> that are linearly
  independent mod 2 and orthogonal to \<open>s\<close> mod 2, the extraction returns the string of
  \<open>s\<close>.
\<close>

lemma honoured_zero_test_round_trip:
  assumes n2: "2 \<le> n" and sec: "is_secret 2 n s"
    and lk: "length vs = n - 1" and lv: "list_all (\<lambda>v. length v = n) vs"
    and orth: "orthogonal_to 2 s vs" and ind: "linearly_independent 2 n vs"
  shows "solve_equation_with Honours_zero_test vs = Inr (digits_string s)"
proof -
  define k where "k = n - 1"
  have kn: "Suc k = n" and k0: "0 < k" using n2 by (simp_all add: k_def)
  have kn': "k < n" using kn by simp
  have n0: "0 < n" using kn by simp
  have lk': "length vs = k" using lk by (simp add: k_def)
  have ne: "vs \<noteq> []" using lk' k0 by auto
  have mat: "Matrix vs = Inr vs" using Matrix_same_length[OF lv ne] n2 by simp
  have lens: "length s = n" using sec by (simp add: is_secret_def)
  let ?z = "\<lambda>x::int. x mod 2 = 0"
  let ?MI = "hstack (T vs) (eye (length (T vs)))"
  have dE: "dims k n vs" using lk' lv by (simp add: dims_def list_all_length)
  have dMI: "dims n (k + n) ?MI" using augmented_dims[OF dE k0] .
  have lenT: "length (T vs) = n" using T_entry(2)[OF dE k0 n0 k0] .
  have lenMI: "length ?MI = n" using dMI by (simp add: dims_def)
  have ncMI: "ncols ?MI = k + n" using dims_ncols[OF dMI n0] .
  have "bin_inv n (k + n) (fn ?MI) ?MI 0 [] 0"
    using dMI by (simp add: bin_inv_def echelon_start)
  from row_reduce_inv[OF this] obtain R pivs r c where
    run: "row_reduce ?z n (k + n) ?MI 0 0 [] = (R, pivs)"
    and inv: "bin_inv n (k + n) (fn ?MI) R r pivs c" and fin: "c = k + n \<or> r = n"
    by blast
  from inv have d: "dims n (k + n) R"
    and ech: "echelon 2 n (fn R) r pivs c" and cN: "c \<le> k + n"
    and kerinc: "\<And>x. in_kernel 2 n (k + n) (fn R) x \<Longrightarrow> in_kernel 2 n (k + n) (fn ?MI) x"
    by (simp_all add: bin_inv_def)
  let ?F = "map (map mod2) (normalize_rows (zip [0..<length pivs] pivs) (map (map of_int) R))"
  have final: "map (map mod2) (fst (rref Honours_zero_test ?z ?MI)) = ?F"
    using run lenMI ncMI by (simp add: rref_def zero_test_def)
  have dF: "dims n (k + n) ?F" using rref_final_mod2(1)[OF d ech cN] .
  have eF: "?F ! i ! j = R ! i ! j mod 2" if "i < n" "j < k + n" for i j
    using rref_final_mod2(2)[OF d ech cN that] .
  have aug: "augmented 2 n k (fn ?MI) (\<lambda>j t. vs ! j ! t)"
    unfolding augmented_def
  proof (intro allI impI conjI)
    fix t j assume "t < n" "j < k"
    then show "eqm 2 (fn ?MI t j) (vs ! j ! t)"
      using augmented_entries(1)[OF dE k0] by (simp add: fn_def)
  next
    fix t t' assume "t < n" "t' < n"
    then show "eqm 2 (fn ?MI t (k + t')) (if t' = t then 1 else 0)"
      using augmented_entries(2)[OF dE k0] by (simp add: fn_def)
  qed
  have shape: "r = n \<and> (\<forall>j<k. eqm 2 (fn R j j) 1) \<and>
    (\<exists>t1<n. eqm 2 (fn R k (k + t1)) 1 \<and> (\<forall>j<k + t1. eqm 2 (fn R k j) 0) \<and>
       (\<forall>t<n. eqm 2 (s ! t) (s ! t1 * fn R k (k + t))))"
  proof (rule reduced_shape[where p = 2 and n = n and k = k and R = "fn R" and r = r
        and pivs = pivs and c = c and ?A0.0 = "fn ?MI" and vs = vs and s = s])
    show "(1::int) < 2" by simp
    show "echelon 2 n (fn R) r pivs c" by (rule ech)
    show "c = k + n \<or> r = n" by (rule fin)
    show "c \<le> k + n" by (rule cN)
    show "in_kernel 2 n (k + n) (fn ?MI) x" if "in_kernel 2 n (k + n) (fn R) x" for x
      using that by (rule kerinc)
    show "augmented 2 n k (fn ?MI) (\<lambda>j t. vs ! j ! t)" by (rule aug)
    show "Suc k = n" by (rule kn)
    show "length vs = k" by (rule lk')
    show "list_all (\<lambda>v. length v = n) vs" by (rule lv)
    show "is_secret 2 n s" by (rule sec)
    show "orthogonal_to 2 s vs" by (rule orth)
    show "linearly_independent 2 n vs" by (rule ind)
  qed
  then obtain t1 where t1: "t1 < n"
    and low: "\<forall>j<k + t1. eqm 2 (fn R k j) 0"
    and scaled: "\<forall>t<n. eqm 2 (s ! t) (s ! t1 * fn R k (k + t))"
    by blast
  have a_nz: "s ! t1 \<noteq> 0"
  proof
    assume z: "s ! t1 = 0"
    have "eqm 2 (s ! t) 0" if "t < n" for t
    proof -
      have "eqm 2 (s ! t) (s ! t1 * fn R k (k + t))" using scaled that by blast
      then show ?thesis using z by simp
    qed
    with is_secret_nonzero[OF sec] show False by blast
  qed
  have a1: "s ! t1 = 1" using secret_digits[OF sec t1] a_nz by arith
  have entry: "?F ! k ! (k + t) = s ! t" if t: "t < n" for t
  proof -
    have "eqm 2 (s ! t) (s ! t1 * fn R k (k + t))" using scaled t by blast
    then have "s ! t mod 2 = R ! k ! (k + t) mod 2" using a1 by (simp add: eqm_def fn_def)
    moreover have "s ! t mod 2 = s ! t" using secret_digits[OF sec t] by simp
    ultimately show ?thesis using eF[OF kn', of "k + t"] t by simp
  qed
  have zero: "?F ! k ! j = 0" if j: "j < k" for j
  proof -
    have "eqm 2 (fn R k j) 0" using low j by simp
    then show ?thesis using eF[OF kn', of j] j by (simp add: eqm_def fn_def)
  qed
  have lenF: "length ?F = n" using dF unfolding dims_def by blast
  have lenFk: "length (?F ! k) = k + n" using dF kn' unfolding dims_def by blast
  have Fne: "?F \<noteq> []" using lenF n0 by auto
  have "length ?F = Suc k" using lenF kn by (simp only:)
  then have lastF: "last ?F = ?F ! k" by (rule last_at[OF Fne])
  have take0: "list_all (\<lambda>value. value = 0) (take k (?F ! k))"
    using zero lenFk by (simp add: list_all_length)
  have "drop k (?F ! k) = map (\<lambda>t. ?F ! k ! (k + t)) [0..<n]" using drop_block[OF lenFk] .
  also have "\<dots> = map (\<lambda>t. s ! t) [0..<n]" using entry by simp
  also have "\<dots> = s" using lens map_nth[of s] by simp
  finally have block: "drop k (?F ! k) = s" .
  have "last_row_solution n k ?F = Inr (digits_string s)"
    using Fne lastF take0 block by (simp add: last_row_solution_def digits_string_def)
  then show ?thesis
    unfolding solve_equation_with_def using mat final lenT lk' by (simp add: Let_def)
qed

text \<open>For \<open>n = 4\<close> and the secret \<open>0111\<close>, the vectors \<open>[1,1,1,0]\<close>, \<open>[0,0,1,1]\<close> and
  \<open>[0,1,0,1]\<close> are \<open>n - 1\<close> vectors of length \<open>n\<close>, linearly independent mod 2 and
  orthogonal to the secret mod 2; the string \<open>1111\<close> is not orthogonal to the first of
  them.\<close>

lemma equations_for_0111:
  "is_secret 2 4 [0, 1, 1, 1] \<and>
   length [[1, 1, 1, 0], [0, 0, 1, 1], [0, 1, 0, 1 :: int]] = 4 - 1 \<and>
   list_all (\<lambda>v. length v = 4) [[1, 1, 1, 0], [0, 0, 1, 1], [0, 1, 0, 1 :: int]] \<and>
   orthogonal_to 2 [0, 1, 1, 1] [[1, 1, 1, 0], [0, 0, 1, 1], [0, 1, 0, 1]] \<and>
   linearly_independent 2 4 [[1, 1, 1, 0], [0, 0, 1, 1], [0, 1, 0, 1]] \<and>
   \<not> orthogonal_to 2 [1, 1, 1, 1] [[1, 1, 1, 0], [0, 0, 1, 1], [0, 1, 0, 1]]"
  by code_simp

text \<open>
  Claim C1 says that \<open>solve_equation\<close> returns the secret for every equation list of
  \<open>n - 1\<close> linearly independent vectors orthogonal to it. The comment at the call of
  \<open>rref\<close> says that an even entry is not chosen as a pivot, and the docstring that the
  reduction leaves a basis of the null space in the identity block. With the library as
  it is released now the zero test is not looked at, the reduction is the one over the
  rationals, and \<open>mod2\<close> reads the numerators of its fractions. On the three equations
  for the secret \<open>0111\<close> the last row of the reduced matrix is
  \<open>(0, 0, 0, 1, -1/2, -1/2, 1/2)\<close> and \<open>solve_equation\<close> returns \<open>1111\<close>; with the zero test
  honoured it returns \<open>0111\<close>.
\<close>

theorem solve_equation_misses_secret:
  "last (fst (rref Ignores_zero_test (\<lambda>x. x mod 2 = 0)
                (hstack (T [[1, 1, 1, 0], [0, 0, 1, 1], [0, 1, 0, 1]]) (eye 4)))) =
     [0, 0, 0, 1, - 1 / 2, - 1 / 2, 1 / 2] \<and>
   solve_equation [[1, 1, 1, 0], [0, 0, 1, 1], [0, 1, 0, 1]] = Inr ''1111'' \<and>
   digits_string [0, 1, 1, 1] = ''0111'' \<and>
   solve_equation_with Honours_zero_test [[1, 1, 1, 0], [0, 0, 1, 1], [0, 1, 0, 1]] = Inr ''0111''"
  by code_simp

section \<open>Every row of an augmented matrix gets a pivot\<close>

lemma cancels_one: "cancels p 1"
  by (simp add: cancels_def)

lemma cancels_unit:
  assumes "eqm p (u * u') 1"
  shows "cancels p u"
  unfolding cancels_def
proof (intro allI impI)
  fix x assume z: "eqm p (u * x) 0"
  have "eqm p (u' * (u * x)) (u' * 0)" by (rule eqm_mult[OF eqm_refl z])
  then have a: "eqm p ((u * u') * x) 0" by (simp add: mult.assoc mult.left_commute mult.commute)
  have "eqm p ((u * u') * x) (1 * x)" by (rule eqm_mult[OF assms eqm_refl])
  then have "eqm p (1 * x) ((u * u') * x)" by (rule eqm_sym)
  then have "eqm p (1 * x) 0" using a by (rule eqm_trans)
  then show "eqm p x 0" by simp
qed

lemma cancels_odd:
  assumes "a mod 2 \<noteq> 0"
  shows "cancels 2 a"
  unfolding cancels_def eqm_def
proof (intro allI impI)
  fix x :: int assume "a * x mod 2 = 0 mod 2"
  then have "even (a * x)" by (simp add: even_iff_mod_2_eq_zero)
  moreover have "odd a" using assms by (simp add: even_iff_mod_2_eq_zero)
  ultimately have "even x" by simp
  then show "x mod 2 = 0 mod 2" by (simp add: even_iff_mod_2_eq_zero)
qed

lemma cancels_nonzero: "a \<noteq> 0 \<Longrightarrow> cancels 0 a"
  by (simp add: cancels_def eqm_def)

lemma pivot_rel_row_step:
  assumes "pivot_rel p n N r c A A'"
  shows "row_step p n N r c A A'"
proof -
  from assms obtain pr u u' m where
    pr: "r \<le> pr" "pr < n" and unit: "eqm p (u * u') 1"
    and rowr: "\<forall>j<N. eqm p (A' r j) (u * A pr j)"
    and rest: "\<forall>i<n. i \<noteq> r \<longrightarrow> eqm p (A' i c) 0 \<and>
           (\<forall>j<N. eqm p (A' i j) (A (if i = pr then r else i) j - m i * A' r j))"
    unfolding pivot_rel_def by blast
  define a where "a i = (if i = r then u else 1)" for i
  have canc: "\<forall>i<n. cancels p (a i)"
    using cancels_unit[OF unit] cancels_one by (simp add: a_def)
  have rowr': "\<forall>j<N. eqm p (A' r j) (a r * A pr j)" using rowr by (simp add: a_def)
  have rest': "\<forall>i<n. i \<noteq> r \<longrightarrow> eqm p (A' i c) 0 \<and>
           (\<forall>j<N. eqm p (A' i j) (a i * A (if i = pr then r else i) j - m i * A' r j))"
    using rest by (simp add: a_def)
  show ?thesis
    unfolding row_step_def using pr canc rowr' rest' by blast
qed

lemma below_zero_start: "below_zero p n A r 0"
  by (simp add: below_zero_def)

lemma below_zero_skip:
  assumes "below_zero p n A r c" and "\<And>i. i < n \<Longrightarrow> r \<le> i \<Longrightarrow> eqm p (A i c) 0"
  shows "below_zero p n A r (Suc c)"
  using assms unfolding below_zero_def by (auto simp: less_Suc_eq)

lemma below_zero_step:
  assumes low: "below_zero p n A r c" and step: "row_step p n N r c A A'" and cN: "c < N"
  shows "below_zero p n A' (Suc r) (Suc c)"
proof -
  from step obtain pr a m where
    pr: "r \<le> pr" "pr < n"
    and rowr: "\<And>j. j < N \<Longrightarrow> eqm p (A' r j) (a r * A pr j)"
    and colc: "\<And>i. i < n \<Longrightarrow> i \<noteq> r \<Longrightarrow> eqm p (A' i c) 0"
    and rest: "\<And>i j. i < n \<Longrightarrow> i \<noteq> r \<Longrightarrow> j < N \<Longrightarrow>
        eqm p (A' i j) (a i * A (if i = pr then r else i) j - m i * A' r j)"
    unfolding row_step_def by blast
  have rn: "r < n" using pr by simp
  have old: "eqm p (A i j) 0" if "i < n" "r \<le> i" "j < c" for i j
    using low that unfolding below_zero_def by blast
  have pivrow: "eqm p (A' r j) 0" if j: "j < c" for j
  proof -
    have "eqm p (A' r j) (a r * A pr j)" using rowr j cN by simp
    moreover have "eqm p (a r * A pr j) 0" using eqm_zero_mult[OF old[OF pr(2) pr(1) j]] .
    ultimately show ?thesis by (rule eqm_trans)
  qed
  show ?thesis
    unfolding below_zero_def
  proof (intro allI impI)
    fix i j assume i: "i < n" "Suc r \<le> i" and j: "j < Suc c"
    have ir: "i \<noteq> r" using i by simp
    show "eqm p (A' i j) 0"
    proof (cases "j = c")
      case True
      then show ?thesis using colc[OF i(1) ir] by simp
    next
      case False
      then have jc: "j < c" using j by simp
      have src: "eqm p (A (if i = pr then r else i) j) 0"
        using old[of "if i = pr then r else i" j] i rn jc by auto
      have "eqm p (A' i j) (a i * A (if i = pr then r else i) j - m i * A' r j)"
        using rest[OF i(1) ir] jc cN by simp
      then have "eqm p (A' i j) (a i * A (if i = pr then r else i) j)"
        using eqm_diff_zero pivrow[OF jc] by blast
      moreover have "eqm p (a i * A (if i = pr then r else i) j) 0"
        using eqm_zero_mult[OF src] .
      ultimately show ?thesis by (rule eqm_trans)
    qed
  qed
qed

lemma independent_step:
  assumes step: "row_step p n N r c A A'" and ind: "rows_independent p n N A"
  shows "rows_independent p n N A'"
  unfolding rows_independent_def
proof (intro allI impI)
  fix y i0
  assume zero: "\<forall>j<N. eqm p (\<Sum>i<n. y i * A' i j) 0" and i0: "i0 < n"
  from step obtain pr a m where
    pr: "r \<le> pr" "pr < n"
    and canc: "\<And>i. i < n \<Longrightarrow> cancels p (a i)"
    and rowr: "\<And>j. j < N \<Longrightarrow> eqm p (A' r j) (a r * A pr j)"
    and rest: "\<And>i j. i < n \<Longrightarrow> i \<noteq> r \<Longrightarrow> j < N \<Longrightarrow>
        eqm p (A' i j) (a i * A (if i = pr then r else i) j - m i * A' r j)"
    unfolding row_step_def by blast
  have rn: "r < n" using pr by simp
  define \<sigma> where "\<sigma> i = (if i = pr then r else i)" for i
  define \<tau> where "\<tau> i = (if i = r then pr else i)" for i
  define S where "S = (\<Sum>i\<in>{..<n} - {r}. y i * m i)"
  define y' where "y' i = (if i = pr then (y r - S) * a r else y (\<tau> i) * a (\<tau> i))" for i
  have comb: "eqm p (\<Sum>i<n. y' i * A i j) 0" if j: "j < N" for j
  proof -
    have split: "(\<Sum>i<n. y i * A' i j) = y r * A' r j + (\<Sum>i\<in>{..<n} - {r}. y i * A' i j)"
      using rn by (simp add: sum.remove)
    have "eqm p (\<Sum>i\<in>{..<n} - {r}. y i * A' i j)
        (\<Sum>i\<in>{..<n} - {r}. y i * (a i * A (\<sigma> i) j - m i * A' r j))"
    proof (rule eqm_sum)
      fix i assume "i \<in> {..<n} - {r}"
      then have "eqm p (A' i j) (a i * A (\<sigma> i) j - m i * A' r j)"
        using rest[of i j] j by (simp add: \<sigma>_def)
      then show "eqm p (y i * A' i j) (y i * (a i * A (\<sigma> i) j - m i * A' r j))"
        by (rule eqm_mult[OF eqm_refl])
    qed
    moreover have "(\<Sum>i\<in>{..<n} - {r}. y i * (a i * A (\<sigma> i) j - m i * A' r j)) =
        (\<Sum>i\<in>{..<n} - {r}. y i * a i * A (\<sigma> i) j) - S * A' r j"
    proof -
      have "(\<Sum>i\<in>{..<n} - {r}. y i * (a i * A (\<sigma> i) j - m i * A' r j)) =
          (\<Sum>i\<in>{..<n} - {r}. y i * a i * A (\<sigma> i) j - y i * m i * A' r j)"
        by (rule sum.cong) (simp_all add: algebra_simps)
      also have "\<dots> = (\<Sum>i\<in>{..<n} - {r}. y i * a i * A (\<sigma> i) j) -
          (\<Sum>i\<in>{..<n} - {r}. y i * m i * A' r j)"
        by (rule sum_subtractf)
      also have "(\<Sum>i\<in>{..<n} - {r}. y i * m i * A' r j) = S * A' r j"
        unfolding S_def by (rule sum_distrib_right[symmetric])
      finally show ?thesis .
    qed
    ultimately have a: "eqm p (\<Sum>i<n. y i * A' i j)
        (y r * A' r j + ((\<Sum>i\<in>{..<n} - {r}. y i * a i * A (\<sigma> i) j) - S * A' r j))"
      unfolding split by (intro eqm_add eqm_refl) simp
    have b: "y r * A' r j + ((\<Sum>i\<in>{..<n} - {r}. y i * a i * A (\<sigma> i) j) - S * A' r j) =
        (y r - S) * A' r j + (\<Sum>i\<in>{..<n} - {r}. y i * a i * A (\<sigma> i) j)"
      by (simp add: algebra_simps)
    have c: "eqm p ((y r - S) * A' r j + (\<Sum>i\<in>{..<n} - {r}. y i * a i * A (\<sigma> i) j))
        ((y r - S) * (a r * A pr j) + (\<Sum>i\<in>{..<n} - {r}. y i * a i * A (\<sigma> i) j))"
      by (intro eqm_add eqm_mult eqm_refl rowr j)
    have reidx: "(\<Sum>i\<in>{..<n} - {r}. y i * a i * A (\<sigma> i) j) =
        (\<Sum>i\<in>{..<n} - {pr}. y (\<tau> i) * a (\<tau> i) * A i j)"
      by (rule sum.reindex_bij_witness[of _ \<tau> \<sigma>]) (use pr rn in \<open>auto simp: \<sigma>_def \<tau>_def\<close>)
    have d: "(\<Sum>i<n. y' i * A i j) = y' pr * A pr j + (\<Sum>i\<in>{..<n} - {pr}. y' i * A i j)"
      using pr by (simp add: sum.remove)
    have e: "(\<Sum>i\<in>{..<n} - {pr}. y' i * A i j) =
        (\<Sum>i\<in>{..<n} - {pr}. y (\<tau> i) * a (\<tau> i) * A i j)"
      by (rule sum.cong) (simp_all add: y'_def)
    have f: "(\<Sum>i<n. y' i * A i j) =
        (y r - S) * (a r * A pr j) + (\<Sum>i\<in>{..<n} - {r}. y i * a i * A (\<sigma> i) j)"
      unfolding d e reidx by (simp add: y'_def algebra_simps)
    have "eqm p (\<Sum>i<n. y i * A' i j) (\<Sum>i<n. y' i * A i j)"
      unfolding f using a c unfolding b by (rule eqm_trans)
    then have "eqm p (\<Sum>i<n. y' i * A i j) (\<Sum>i<n. y i * A' i j)" by (rule eqm_sym)
    then show ?thesis using zero j eqm_trans by blast
  qed
  have y'0: "eqm p (y' i) 0" if "i < n" for i
    using ind comb that unfolding rows_independent_def by blast
  have others: "eqm p (y i) 0" if i: "i < n" "i \<noteq> r" for i
  proof -
    have "\<sigma> i < n" "\<sigma> i \<noteq> pr" "\<tau> (\<sigma> i) = i" using i pr rn by (auto simp: \<sigma>_def \<tau>_def)
    then have "eqm p (y i * a i) 0" using y'0[of "\<sigma> i"] by (simp add: y'_def)
    then have "eqm p (a i * y i) 0" by (simp add: mult.commute)
    then show ?thesis using canc[OF i(1)] unfolding cancels_def by blast
  qed
  have S0: "eqm p S 0"
  proof -
    have "eqm p S (\<Sum>i\<in>{..<n} - {r}. 0 * m i)"
      unfolding S_def
    proof (rule eqm_sum)
      fix i assume "i \<in> {..<n} - {r}"
      then have "eqm p (y i) 0" using others[of i] by simp
      then show "eqm p (y i * m i) (0 * m i)" by (rule eqm_mult[OF _ eqm_refl])
    qed
    then show ?thesis by simp
  qed
  have "eqm p ((y r - S) * a r) 0" using y'0[OF pr(2)] by (simp add: y'_def)
  then have "eqm p (a r * (y r - S)) 0" by (simp add: mult.commute)
  then have "eqm p (y r - S) 0" using canc[OF rn] unfolding cancels_def by blast
  then have "eqm p (y r - S + S) (0 + 0)" using S0 by (rule eqm_add)
  then have yr: "eqm p (y r) 0" by simp
  show "eqm p (y i0) 0" using others[OF i0] yr by (cases "i0 = r") simp_all
qed

lemma independent_augmented:
  assumes "\<And>t t'. t < n \<Longrightarrow> t' < n \<Longrightarrow> eqm p (A t (k + t')) (if t' = t then 1 else 0)"
  shows "rows_independent p n (k + n) A"
  unfolding rows_independent_def
proof (intro allI impI)
  fix y t' assume zero: "\<forall>j<k + n. eqm p (\<Sum>i<n. y i * A i j) 0" and t': "t' < n"
  have "eqm p (\<Sum>i<n. y i * A i (k + t')) (\<Sum>i<n. y i * (if t' = i then 1 else 0))"
  proof (rule eqm_sum)
    fix i assume "i \<in> {..<n}"
    then have "eqm p (A i (k + t')) (if t' = i then 1 else 0)" using assms[of i t'] t' by simp
    then show "eqm p (y i * A i (k + t')) (y i * (if t' = i then 1 else 0))"
      by (rule eqm_mult[OF eqm_refl])
  qed
  moreover have "(\<Sum>i<n. y i * (if t' = i then 1 else 0)) = y t'"
  proof -
    have "(\<Sum>i<n. y i * (if t' = i then 1 else 0)) = (\<Sum>i<n. if i = t' then y i else 0)"
      by (rule sum.cong) simp_all
    then show ?thesis using t' by simp
  qed
  ultimately have "eqm p (\<Sum>i<n. y i * A i (k + t')) (y t')" by simp
  then have "eqm p (y t') (\<Sum>i<n. y i * A i (k + t'))" by (rule eqm_sym)
  moreover have "eqm p (\<Sum>i<n. y i * A i (k + t')) 0" using zero t' by simp
  ultimately show "eqm p (y t') 0" by (rule eqm_trans)
qed

lemma independent_no_zero_row:
  assumes ind: "rows_independent p n N A" and low: "below_zero p n A r N"
    and r: "r \<le> n" and one: "\<not> eqm p 1 0"
  shows "r = n"
proof (rule ccontr)
  assume "r \<noteq> n"
  then have rn: "r < n" using r by simp
  define y :: "nat \<Rightarrow> int" where "y i = (if i = r then 1 else 0)" for i
  have "eqm p (\<Sum>i<n. y i * A i j) 0" if j: "j < N" for j
  proof -
    have "(\<Sum>i<n. y i * A i j) = A r j" using rn by (simp add: y_def sum.delta if_distrib[of "\<lambda>x. x * _"] cong: if_cong)
    then show ?thesis using low rn j unfolding below_zero_def by simp
  qed
  then have "eqm p (y r) 0" using ind rn unfolding rows_independent_def by blast
  then show False using one by (simp add: y_def)
qed

lemma rows_inv_step:
  assumes inv: "rows_inv p n N M r pivs c" and d: "dims n N M'"
    and step: "row_step p n N r c (fn M) (fn M')" and c: "c < N" and r: "r < n"
  shows "rows_inv p n N M' (Suc r) (pivs @ [c]) (Suc c)"
proof -
  from inv have len: "length pivs = r" and low: "below_zero p n (fn M) r c"
    and ind: "rows_independent p n N (fn M)"
    by (simp_all add: rows_inv_def)
  have "below_zero p n (fn M') (Suc r) (Suc c)" using below_zero_step[OF low step c] .
  moreover have "rows_independent p n N (fn M')" using independent_step[OF step ind] .
  ultimately show ?thesis using d len c r by (simp add: rows_inv_def)
qed

lemma rows_inv_skip:
  assumes inv: "rows_inv p n N M r pivs c" and c: "c < N"
    and zero: "\<And>i. i < n \<Longrightarrow> r \<le> i \<Longrightarrow> eqm p (fn M i c) 0"
  shows "rows_inv p n N M r pivs (Suc c)"
proof -
  from inv have low: "below_zero p n (fn M) r c" by (simp add: rows_inv_def)
  have "below_zero p n (fn M) r (Suc c)" using below_zero_skip[OF low zero] .
  then show ?thesis using inv c by (simp add: rows_inv_def)
qed

lemma rows_inv_full:
  assumes inv: "rows_inv p n N R r pivs c" and fin: "c = N \<or> r = n" and one: "\<not> eqm p 1 0"
  shows "length pivs = n"
proof (cases "r = n")
  case True
  then show ?thesis using inv by (simp add: rows_inv_def)
next
  case False
  then have cN: "c = N" using fin by simp
  from inv have ind: "rows_independent p n N (fn R)" and low: "below_zero p n (fn R) r N"
    and rn: "r \<le> n"
    using cN by (simp_all add: rows_inv_def)
  from independent_no_zero_row[OF ind low rn one] False show ?thesis by simp
qed

lemma rref_mod3_loop_rows:
  "rows_inv 3 n N M r pivs c \<Longrightarrow> range3 n N M \<Longrightarrow>
   \<exists>R pivs' r' c'. rref_mod3_loop n [c..<N] M r pivs = Inr (R, pivs') \<and>
     rows_inv 3 n N R r' pivs' c' \<and> (c' = N \<or> r' = n)"
proof (induction "N - c" arbitrary: c M r pivs)
  case 0
  then have "c = N" by (simp add: rows_inv_def)
  with 0 show ?case by auto
next
  case (Suc d)
  then have c: "c < N" and d: "d = N - Suc c" by simp_all
  from Suc.prems have dm: "dims n N M" and rg: "range3 n N M"
    by (simp_all add: rows_inv_def)
  have cols: "[c..<N] = c # [Suc c..<N]" using c by (simp add: upt_conv_Cons)
  show ?case
  proof (cases "find_pivot_row M c [r..<n]")
    case None
    have "rows_inv 3 n N M r pivs (Suc c)"
    proof (rule rows_inv_skip[OF Suc.prems(1) c])
      fix i assume "i < n" "r \<le> i"
      then have "M ! i ! c = 0" using find_pivot_row_None[OF None, of i] by simp
      then show "eqm 3 (fn M i c) 0" by (simp add: fn_def)
    qed
    from Suc.hyps(1)[OF d this rg] None cols show ?thesis by simp
  next
    case (Some pr)
    from find_pivot_row_Some[OF Some] have rn: "r < n" by simp
    from ternary_step[OF dm rg c Some] obtain M' where
      norm: "normalize_pivot_row (if pr \<noteq> r then row_swap pr r M else M) r c = Inr M'"
      and d3: "dims n N (eliminate_mod3 M' r c)" and rg3: "range3 n N (eliminate_mod3 M' r c)"
      and step: "pivot_rel 3 n N r c (fn M) (fn (eliminate_mod3 M' r c))"
      by blast
    let ?M3 = "eliminate_mod3 M' r c"
    have inv3: "rows_inv 3 n N ?M3 (Suc r) (pivs @ [c]) (Suc c)"
      using rows_inv_step[OF Suc.prems(1) d3 pivot_rel_row_step[OF step] c rn] .
    show ?thesis
    proof (cases "r + 1 = n")
      case True
      then have "rref_mod3_loop n [c..<N] M r pivs = Inr (?M3, pivs @ [c])"
        using cols Some norm by simp
      with inv3 True show ?thesis by auto
    next
      case False
      then have "rref_mod3_loop n [c..<N] M r pivs =
          rref_mod3_loop n [Suc c..<N] ?M3 (Suc r) (pivs @ [c])"
        using cols Some norm by simp
      with Suc.hyps(1)[OF d inv3 rg3] show ?thesis by simp
    qed
  qed
qed

lemma zero_test_step:
  assumes d: "dims n N mat" and c: "c < N" and r: "r < n"
    and found: "find_pivot_offset (\<lambda>x. x mod p = 0) (drop r (get_col mat c)) = Some off"
    and canc: "\<And>a. a mod p \<noteq> 0 \<Longrightarrow> cancels p a"
  shows "dims n N (cross_cancel_rows (\<lambda>x. x mod p = 0)
            (if off \<noteq> 0 then row_swap r (off + r) mat else mat) r c) \<and>
      row_step p n N r c (fn mat)
        (fn (cross_cancel_rows (\<lambda>x. x mod p = 0)
            (if off \<noteq> 0 then row_swap r (off + r) mat else mat) r c))"
proof -
  let ?z = "\<lambda>x::int. x mod p = 0"
  from d have len: "length mat = n" by (simp add: dims_def)
  from find_pivot_offset_Some[OF found] have off: "off < n - r"
    and nz0: "\<not> ?z (drop r (get_col mat c) ! off)"
    by (simp_all add: get_col_def len)
  define pr where "pr = off + r"
  have pr: "r \<le> pr" "pr < n" using off by (simp_all add: pr_def)
  have nzp: "mat ! pr ! c mod p \<noteq> 0"
    using nz0 get_col_drop[of off r mat c] pr len by (simp add: pr_def)
  let ?M1 = "if off \<noteq> 0 then row_swap r (off + r) mat else mat"
  have rows1: "?M1 ! i = (if i = pr then mat ! r else if i = r then mat ! pr else mat ! i)"
    if "i < n" for i
    using that pr r len by (auto simp: row_swap_nth' pr_def)
  have d1: "dims n N ?M1" using d pr r by (simp add: row_swap_dims' pr_def)
  let ?M3 = "cross_cancel_rows ?z ?M1 r c"
  have d3: "dims n N ?M3" using cross_cancel_rows_dims[OF d1 r] .
  have e3: "?M3 ! i ! j =
      (if i = r then ?M1 ! i ! j
       else if ?z (?M1 ! i ! c) then ?M1 ! i ! j
       else ?M1 ! r ! c * ?M1 ! i ! j - ?M1 ! i ! c * ?M1 ! r ! j)" if "i < n" "j < N" for i j
    using cross_cancel_rows_entry[OF d1 r that] .
  have r1: "?M1 ! r = mat ! pr" using rows1[OF r] by simp
  define a where "a i = (if i = r then 1 else if ?z (?M1 ! i ! c) then 1 else ?M1 ! r ! c)" for i
  define m where "m i = (if ?z (?M1 ! i ! c) then 0 else ?M1 ! i ! c)" for i
  have ca: "cancels p (a i)" for i
    using cancels_one canc[OF nzp] r1 by (simp add: a_def)
  have rowr: "eqm p (fn ?M3 r j) (a r * fn mat pr j)" if j: "j < N" for j
    using e3[OF r j] r1 by (simp add: fn_def a_def)
  have colc: "eqm p (fn ?M3 i c) 0" if i: "i < n" "i \<noteq> r" for i
  proof (cases "?z (?M1 ! i ! c)")
    case True
    then have "fn ?M3 i c mod p = 0" using e3[OF i(1) c] i(2) by (simp add: fn_def)
    then show ?thesis by (simp add: eqm_def)
  next
    case False
    then have "?M3 ! i ! c = 0" using e3[OF i(1) c] i(2) by simp
    then show ?thesis by (simp add: fn_def)
  qed
  have rest: "eqm p (fn ?M3 i j) (a i * fn mat (if i = pr then r else i) j - m i * fn ?M3 r j)"
    if i: "i < n" "i \<noteq> r" and j: "j < N" for i j
  proof -
    have src: "?M1 ! i ! j = fn mat (if i = pr then r else i) j"
      using rows1[OF i(1)] i(2) by (simp add: fn_def)
    have r3: "fn ?M3 r j = ?M1 ! r ! j" using e3[OF r j] by (simp add: fn_def)
    have "fn ?M3 i j = a i * ?M1 ! i ! j - m i * ?M1 ! r ! j"
      using e3[OF i(1) j] i(2) by (simp add: fn_def a_def m_def)
    then have "fn ?M3 i j = a i * fn mat (if i = pr then r else i) j - m i * fn ?M3 r j"
      by (simp only: src r3)
    then show ?thesis by (simp only: eqm_refl)
  qed
  have "row_step p n N r c (fn mat) (fn ?M3)"
    unfolding row_step_def
  proof (rule exI[of _ pr], rule exI[of _ a], rule exI[of _ m], intro conjI allI impI)
    show "r \<le> pr" "pr < n" by (rule pr)+
    show "cancels p (a i)" for i by (rule ca)
    show "eqm p (fn ?M3 r j) (a r * fn mat pr j)" if "j < N" for j using rowr[OF that] .
    show "eqm p (fn ?M3 i c) 0" if "i < n" "i \<noteq> r" for i using colc[OF that] .
    show "eqm p (fn ?M3 i j) (a i * fn mat (if i = pr then r else i) j - m i * fn ?M3 r j)"
      if "i < n" "i \<noteq> r" "j < N" for i j using rest[OF that] .
  qed
  with d3 show ?thesis by blast
qed

lemma row_reduce_rows:
  assumes canc: "\<And>a. a mod p \<noteq> 0 \<Longrightarrow> cancels p a"
  shows "rows_inv p n N mat r pivs c \<Longrightarrow>
   \<exists>R pivs' r' c'. row_reduce (\<lambda>x. x mod p = 0) n N mat r c pivs = (R, pivs') \<and>
     rows_inv p n N R r' pivs' c' \<and> (c' = N \<or> r' = n)"
proof (induction "N - c" arbitrary: c mat r pivs)
  case 0
  then have "c = N" by (simp add: rows_inv_def)
  then have "row_reduce (\<lambda>x. x mod p = 0) n N mat r c pivs = (mat, pivs)"
    by (simp add: row_reduce.simps)
  with 0 \<open>c = N\<close> show ?case by blast
next
  case (Suc d)
  then have c: "c < N" and d: "d = N - Suc c" by simp_all
  from Suc.prems have dm: "dims n N mat" and rn: "r \<le> n"
    by (simp_all add: rows_inv_def)
  from dm have len: "length mat = n" by (simp add: dims_def)
  show ?case
  proof (cases "r < n")
    case False
    then have "r = n" using rn by simp
    moreover have "row_reduce (\<lambda>x. x mod p = 0) n N mat r c pivs = (mat, pivs)"
      using False by (simp add: row_reduce.simps)
    ultimately show ?thesis using Suc.prems by blast
  next
    case True
    show ?thesis
    proof (cases "find_pivot_offset (\<lambda>x. x mod p = 0) (drop r (get_col mat c))")
      case None
      have "rows_inv p n N mat r pivs (Suc c)"
      proof (rule rows_inv_skip[OF Suc.prems c])
        fix i assume i: "i < n" "r \<le> i"
        have "i - r < length (drop r (get_col mat c))" using i True len by (simp add: get_col_def)
        from find_pivot_offset_None[OF None this]
        have "drop r (get_col mat c) ! (i - r) mod p = 0" .
        moreover have "drop r (get_col mat c) ! (i - r) = mat ! i ! c"
          using get_col_drop[of "i - r" r mat c] i len by simp
        ultimately show "eqm p (fn mat i c) 0" by (simp add: fn_def eqm_def)
      qed
      from Suc.hyps(1)[OF d this] obtain R pivs' r' c' where
        res: "row_reduce (\<lambda>x. x mod p = 0) n N mat r (Suc c) pivs = (R, pivs')"
          "rows_inv p n N R r' pivs' c'" "c' = N \<or> r' = n"
        by blast
      have "row_reduce (\<lambda>x. x mod p = 0) n N mat r c pivs = (R, pivs')"
        using res(1) None True c by (subst row_reduce.simps) simp
      with res(2,3) show ?thesis by blast
    next
      case (Some off)
      let ?M3 = "cross_cancel_rows (\<lambda>x. x mod p = 0)
            (if off \<noteq> 0 then row_swap r (off + r) mat else mat) r c"
      from zero_test_step[OF dm c True Some canc] have d3: "dims n N ?M3"
        and step: "row_step p n N r c (fn mat) (fn ?M3)"
        by simp_all
      have "rows_inv p n N ?M3 (Suc r) (pivs @ [c]) (Suc c)"
        using rows_inv_step[OF Suc.prems d3 step c True] .
      from Suc.hyps(1)[OF d this] obtain R pivs' r' c' where
        res: "row_reduce (\<lambda>x. x mod p = 0) n N ?M3 (Suc r) (Suc c) (pivs @ [c]) = (R, pivs')"
          "rows_inv p n N R r' pivs' c'" "c' = N \<or> r' = n"
        by blast
      have "row_reduce (\<lambda>x. x mod p = 0) n N mat r c pivs = (R, pivs')"
        using res(1) Some True c by (subst row_reduce.simps) simp
      with res(2,3) show ?thesis by blast
    qed
  qed
qed

text \<open>Strictly increasing columns: at most \<open>k\<close> of them lie before column \<open>k\<close>.\<close>

lemma pivots_before:
  assumes "sorted_wrt (<) (pivs :: nat list)"
  shows "length (filter (\<lambda>c. c < k) pivs) \<le> k"
proof -
  have "distinct pivs" using assms by (simp add: strict_sorted_iff)
  then have "distinct (filter (\<lambda>c. c < k) pivs)" by simp
  then have "length (filter (\<lambda>c. c < k) pivs) = card (set (filter (\<lambda>c. c < k) pivs))"
    by (rule distinct_card[symmetric])
  also have "\<dots> \<le> card {..<k}" by (rule card_mono) auto
  finally show ?thesis by simp
qed

lemma pivots_from:
  assumes "sorted_wrt (<) (pivs :: nat list)"
  shows "length pivs - k \<le> length (filter (\<lambda>c. k \<le> c) pivs)"
proof -
  have "length (filter (\<lambda>c. k \<le> c) pivs) + length (filter (\<lambda>c. \<not> k \<le> c) pivs) = length pivs"
    by (rule sum_length_filter_compl)
  moreover have "filter (\<lambda>c. \<not> k \<le> c) pivs = filter (\<lambda>c. c < k) pivs"
    by (rule filter_cong) auto
  ultimately show ?thesis using pivots_before[OF assms, of k] by simp
qed

lemma is_matrix_dims: "is_matrix E \<Longrightarrow> dims (length E) (ncols E) E"
  by (simp add: is_matrix_def dims_def list_all_length)

lemma augmented_empty:
  assumes "ncols E = 0"
  shows "hstack (T E) (eye (length (T E))) = []"
  using assms by (simp add: T_def hstack_def eye_def)

text \<open>On an augmented matrix \<open>[M | I]\<close> the reduction mod 3 gives every row a pivot.\<close>

lemma rref_mod3_full:
  assumes m: "is_matrix E" and ne: "E \<noteq> []"
  shows "\<exists>R pivs. rref_mod3 (hstack (T E) (eye (length (T E)))) = Inr (R, pivs) \<and>
      length pivs = ncols E"
proof (cases "ncols E = 0")
  case True
  then show ?thesis by (simp add: augmented_empty rref_mod3_def ncols_def)
next
  case False
  define k where "k = length E"
  define n where "n = ncols E"
  have k0: "0 < k" using ne by (simp add: k_def)
  have n0: "0 < n" using False by (simp add: n_def)
  have dE: "dims k n E" using is_matrix_dims[OF m] by (simp add: k_def n_def)
  let ?MI = "hstack (T E) (eye (length (T E)))"
  let ?M0 = "map (map mod3) ?MI"
  have dMI: "dims n (k + n) ?MI" using augmented_dims[OF dE k0] .
  have lenMI: "length ?MI = n" using dMI by (simp add: dims_def)
  have ncMI: "ncols ?MI = k + n" using dims_ncols[OF dMI n0] .
  have d0: "dims n (k + n) ?M0" using dMI by (rule map_mod3_dims)
  have rg0: "range3 n (k + n) ?M0" using dMI by (rule map_mod3_range)
  have entry0: "fn ?M0 t j = mod3 (?MI ! t ! j)" if "t < n" "j < k + n" for t j
    using that dMI by (simp add: fn_def dims_def)
  have ind0: "rows_independent 3 n (k + n) (fn ?M0)"
  proof (rule independent_augmented)
    fix t t' assume t: "t < n" and t': "t' < n"
    have "?MI ! t ! (k + t') = (if t' = t then 1 else 0)"
      using augmented_entries(2)[OF dE k0 t t'] .
    then have "fn ?M0 t (k + t') = mod3 (if t' = t then 1 else 0)"
      using entry0[OF t, of "k + t'"] t' by simp
    then show "eqm 3 (fn ?M0 t (k + t')) (if t' = t then 1 else 0)"
      by (simp add: eqm_def mod3_def)
  qed
  have "rows_inv 3 n (k + n) ?M0 0 [] 0"
    using d0 ind0 by (simp add: rows_inv_def below_zero_start)
  from rref_mod3_loop_rows[OF this rg0] obtain R pivs r c where
    run: "rref_mod3_loop n [0..<k + n] ?M0 0 [] = Inr (R, pivs)"
    and inv: "rows_inv 3 n (k + n) R r pivs c" and fin: "c = k + n \<or> r = n"
    by blast
  have rref: "rref_mod3 ?MI = Inr (R, pivs)"
    using run lenMI ncMI by (simp add: rref_mod3_def)
  have "length pivs = n" by (rule rows_inv_full[OF inv fin]) (simp add: eqm_def)
  with rref show ?thesis by (simp add: n_def)
qed

text \<open>So does the library's reduction, with the zero test mod 2 and with the exact one.\<close>

lemma row_reduce_full:
  assumes m: "is_matrix E" and ne: "E \<noteq> []"
    and canc: "\<And>a. a mod p \<noteq> 0 \<Longrightarrow> cancels p a" and one: "\<not> eqm p 1 0"
  shows "length (snd (row_reduce (\<lambda>x. x mod p = 0)
            (length (hstack (T E) (eye (length (T E)))))
            (ncols (hstack (T E) (eye (length (T E)))))
            (hstack (T E) (eye (length (T E)))) 0 0 [])) = ncols E"
proof (cases "ncols E = 0")
  case True
  then show ?thesis by (simp add: augmented_empty row_reduce.simps)
next
  case False
  define k where "k = length E"
  define n where "n = ncols E"
  have k0: "0 < k" using ne by (simp add: k_def)
  have n0: "0 < n" using False by (simp add: n_def)
  have dE: "dims k n E" using is_matrix_dims[OF m] by (simp add: k_def n_def)
  let ?MI = "hstack (T E) (eye (length (T E)))"
  have dMI: "dims n (k + n) ?MI" using augmented_dims[OF dE k0] .
  have lenMI: "length ?MI = n" using dMI by (simp add: dims_def)
  have ncMI: "ncols ?MI = k + n" using dims_ncols[OF dMI n0] .
  have ind0: "rows_independent p n (k + n) (fn ?MI)"
  proof (rule independent_augmented)
    fix t t' assume t: "t < n" and t': "t' < n"
    have "?MI ! t ! (k + t') = (if t' = t then 1 else 0)"
      using augmented_entries(2)[OF dE k0 t t'] .
    then show "eqm p (fn ?MI t (k + t')) (if t' = t then 1 else 0)"
      by (simp add: fn_def)
  qed
  have "rows_inv p n (k + n) ?MI 0 [] 0"
    using dMI ind0 by (simp add: rows_inv_def below_zero_start)
  from row_reduce_rows[OF canc this] obtain R pivs r c where
    run: "row_reduce (\<lambda>x. x mod p = 0) n (k + n) ?MI 0 0 [] = (R, pivs)"
    and inv: "rows_inv p n (k + n) R r pivs c" and fin: "c = k + n \<or> r = n"
    by blast
  have "length pivs = n" by (rule rows_inv_full[OF inv fin one])
  then show ?thesis using run lenMI ncMI by (simp add: n_def)
qed

lemma rref_full:
  assumes m: "is_matrix E" and ne: "E \<noteq> []"
  shows "length (snd (rref lib (\<lambda>x. x mod 2 = 0) (hstack (T E) (eye (length (T E)))))) = ncols E"
proof (cases lib)
  case Honours_zero_test
  have "length (snd (row_reduce (\<lambda>x. x mod 2 = 0)
            (length (hstack (T E) (eye (length (T E)))))
            (ncols (hstack (T E) (eye (length (T E)))))
            (hstack (T E) (eye (length (T E)))) 0 0 [])) = ncols E"
    by (rule row_reduce_full[OF m ne]) (simp_all add: cancels_odd eqm_def)
  then show ?thesis
    using Honours_zero_test by (simp add: rref_def zero_test_def case_prod_beta)
next
  case Ignores_zero_test
  have z: "(\<lambda>x::int. x = 0) = (\<lambda>x. x mod 0 = 0)" by simp
  have "length (snd (row_reduce (\<lambda>x. x mod 0 = 0)
            (length (hstack (T E) (eye (length (T E)))))
            (ncols (hstack (T E) (eye (length (T E)))))
            (hstack (T E) (eye (length (T E)))) 0 0 [])) = ncols E"
    by (rule row_reduce_full[OF m ne]) (simp_all add: cancels_nonzero eqm_def)
  then show ?thesis
    using Ignores_zero_test by (simp add: rref_def zero_test_def case_prod_beta)
qed

section \<open>The pivot search on the augmented matrix\<close>

text \<open>
  Claim C6 says that no column of the appended identity block is ever a pivot column.
  For the single equation \<open>[1,0,0]\<close> the augmented matrix has one column from the
  equation and \<open>rref_mod3\<close> selects the columns 0, 2 and 3; for the two equations of
  the literal instance the library's reduction selects the columns 0, 1 and 2, with
  the zero test honoured or not, the last of them in the identity block.
\<close>

theorem identity_block_pivot_selected:
  "rref_mod3 (hstack (T [[1, 0, 0]]) (eye 3)) =
     Inr ([[1, 1, 0, 0], [0, 0, 1, 0], [0, 0, 0, 1]], [0, 2, 3]) \<and>
   snd (rref Ignores_zero_test (\<lambda>x. x mod 2 = 0)
          (hstack (T [[1, 1, 0], [0, 1, 1]]) (eye 3))) = [0, 1, 2] \<and>
   snd (rref Honours_zero_test (\<lambda>x. x mod 2 = 0)
          (hstack (T [[1, 1, 0], [0, 1, 1]]) (eye 3))) = [0, 1, 2] \<and>
   \<not> (2::nat) < length [[1, 0, 0 :: int]] \<and> \<not> (2::nat) < length [[1, 1, 0], [0, 1, 1 :: int]]"
  by code_simp

text \<open>
  Claim C6, amended. The pivot search runs over the columns of the whole augmented
  matrix \<open>[M | I]\<close> from left to right, those of the identity block included, until
  every row has a pivot. For every non-empty list \<open>E\<close> of \<open>k\<close> equations of length \<open>n\<close>,
  \<open>rref_mod3\<close> and the library's reduction, with the zero test honoured or not, select
  exactly \<open>n\<close> pivot columns in the matrix of \<open>n\<close> rows and \<open>k + n\<close> columns, in
  strictly increasing order; so at least \<open>n - k\<close> of the pivot columns are columns of
  the identity block, which are the columns from \<open>k\<close> on.
\<close>

theorem identity_block_columns_are_pivots:
  assumes "is_matrix E" and "E \<noteq> []"
  shows "(\<exists>R pivot_cols.
            rref_mod3 (hstack (T E) (eye (length (T E)))) = Inr (R, pivot_cols) \<and>
            length pivot_cols = ncols E \<and> sorted_wrt (<) pivot_cols \<and>
            (\<forall>c\<in>set pivot_cols. c < ncols (hstack (T E) (eye (length (T E))))) \<and>
            ncols E - length E \<le> length (filter (\<lambda>c. length E \<le> c) pivot_cols)) \<and>
         (\<exists>pivot_cols.
            snd (rref lib (\<lambda>x. x mod 2 = 0) (hstack (T E) (eye (length (T E))))) = pivot_cols \<and>
            length pivot_cols = ncols E \<and> sorted_wrt (<) pivot_cols \<and>
            (\<forall>c\<in>set pivot_cols. c < ncols (hstack (T E) (eye (length (T E))))) \<and>
            ncols E - length E \<le> length (filter (\<lambda>c. length E \<le> c) pivot_cols))"
proof (intro conjI)
  let ?MI = "hstack (T E) (eye (length (T E)))"
  from rref_mod3_full[OF assms] obtain R pivs where
    run: "rref_mod3 ?MI = Inr (R, pivs)" and len: "length pivs = ncols E"
    by blast
  from run have loop:
    "rref_mod3_loop (length ?MI) [0..<ncols ?MI] (map (map mod3) ?MI) 0 [] = Inr (R, pivs)"
    by (simp add: rref_mod3_def)
  have inv: "sorted_wrt (<) pivs \<and> set pivs \<subseteq> set [] \<union> set [0..<ncols ?MI] \<and>
      length pivs + 0 \<le> length ([]::nat list) + length ?MI"
    by (rule rref_mod3_loop_pivots[OF loop]) simp_all
  then have sorted: "sorted_wrt (<) pivs" and below: "\<forall>c\<in>set pivs. c < ncols ?MI"
    by auto
  have "ncols E - length E \<le> length (filter (\<lambda>c. length E \<le> c) pivs)"
    using pivots_from[OF sorted, of "length E"] len by simp
  with run len sorted below
  show "\<exists>R pivot_cols. rref_mod3 ?MI = Inr (R, pivot_cols) \<and>
      length pivot_cols = ncols E \<and> sorted_wrt (<) pivot_cols \<and>
      (\<forall>c\<in>set pivot_cols. c < ncols ?MI) \<and>
      ncols E - length E \<le> length (filter (\<lambda>c. length E \<le> c) pivot_cols)"
    by blast
next
  let ?MI = "hstack (T E) (eye (length (T E)))"
  let ?pivs = "snd (rref lib (\<lambda>x. x mod 2 = 0) ?MI)"
  have len: "length ?pivs = ncols E" using rref_full[OF assms] .
  obtain mat where loop:
    "row_reduce (zero_test lib (\<lambda>x. x mod 2 = 0)) (length ?MI) (ncols ?MI) ?MI 0 0 [] =
       (mat, ?pivs)"
    by (cases "row_reduce (zero_test lib (\<lambda>x. x mod 2 = 0)) (length ?MI) (ncols ?MI) ?MI 0 0 []")
      (simp add: rref_def)
  have inv: "sorted_wrt (<) ?pivs \<and> (\<forall>p\<in>set ?pivs. p < ncols ?MI \<or> p \<in> set []) \<and>
      length ?pivs + 0 \<le> length ([]::nat list) + length ?MI"
    by (rule row_reduce_pivots[OF loop]) simp_all
  then have sorted: "sorted_wrt (<) ?pivs" and below: "\<forall>c\<in>set ?pivs. c < ncols ?MI"
    by auto
  have "ncols E - length E \<le> length (filter (\<lambda>c. length E \<le> c) ?pivs)"
    using pivots_from[OF sorted, of "length E"] len by simp
  with len sorted below
  show "\<exists>pivot_cols. ?pivs = pivot_cols \<and>
      length pivot_cols = ncols E \<and> sorted_wrt (<) pivot_cols \<and>
      (\<forall>c\<in>set pivot_cols. c < ncols ?MI) \<and>
      ncols E - length E \<le> length (filter (\<lambda>c. length E \<le> c) pivot_cols)"
    by blast
qed

theorem identity_block_columns_are_pivots_witness:
  "is_matrix [[1, 0, 0 :: int]] \<and> [[1, 0, 0 :: int]] \<noteq> [] \<and>
   rref_mod3 (hstack (T [[1, 0, 0]]) (eye (length (T [[1, 0, 0]])))) =
     Inr ([[1, 1, 0, 0], [0, 0, 1, 0], [0, 0, 0, 1]], [0, 2, 3]) \<and>
   length [0, 2, 3 :: nat] = ncols [[1, 0, 0 :: int]] \<and>
   ncols [[1, 0, 0 :: int]] - length [[1, 0, 0 :: int]] \<le>
     length (filter (\<lambda>c. length [[1, 0, 0 :: int]] \<le> c) [0, 2, 3 :: nat]) \<and>
   length (snd (rref Ignores_zero_test (\<lambda>x. x mod 2 = 0)
                  (hstack (T [[1, 0, 0]]) (eye (length (T [[1, 0, 0]])))))) =
     ncols [[1, 0, 0 :: int]] \<and>
   sorted_wrt (<) (snd (rref Ignores_zero_test (\<lambda>x. x mod 2 = 0)
                  (hstack (T [[1, 0, 0]]) (eye (length (T [[1, 0, 0]])))))) \<and>
   ncols [[1, 0, 0 :: int]] - length [[1, 0, 0 :: int]] \<le>
     length (filter (\<lambda>c. length [[1, 0, 0 :: int]] \<le> c)
       (snd (rref Ignores_zero_test (\<lambda>x. x mod 2 = 0)
                  (hstack (T [[1, 0, 0]]) (eye (length (T [[1, 0, 0]])))))))"
proof -
  have h1: "is_matrix [[1, 0, 0 :: int]]" by code_simp
  have h2: "[[1, 0, 0 :: int]] \<noteq> []" by simp
  have a: "rref_mod3 (hstack (T [[1, 0, 0]]) (eye (length (T [[1, 0, 0]])))) =
     Inr ([[1, 1, 0, 0], [0, 0, 1, 0], [0, 0, 0, 1]], [0, 2, 3])"
    by code_simp
  have n: "ncols [[1, 0, 0 :: int]] = 3" by code_simp
  from identity_block_columns_are_pivots[OF h1 h2, of Ignores_zero_test]
  show ?thesis using h1 a n by simp
qed

end
